theory Spec2Isabelle
  imports Complex_Main
begin

section \<open>HiveSight: a shallow embedding of \<open>app.py\<close>\<close>

text \<open>
  The application asks a language model the same yes/no question \<open>num_queries\<close> times,
  classifies every reply, and reports the share of "yes" among the valid replies together
  with a 95% interval, optionally followed by a summary of the explanations.

  Conventions of the embedding.
  \<^item> A Python \<open>str\<close> is a \<open>string\<close>; a \<open>char\<close> stands for a code point below 256.
  \<^item> A Python call that may raise returns \<open>exn + 'a\<close>, with \<open>Inl\<close> the exception.
    Only instances of \<open>Exception\<close> are modelled (the \<open>except Exception\<close> clauses of the
    source catch exactly these).
  \<^item> The remote service is a parameter \<open>client\<close>: the outcome of the \<open>i\<close>-th call of
    \<open>messages.create\<close> in a run, given the request that was sent.
  \<^item> Floating-point numbers are real numbers; number formatting and the Streamlit
    widgets (progress bar, status text, download button) are left out.
\<close>

subsection \<open>Strings\<close>

definition is_space :: "char \<Rightarrow> bool" where
  \<comment> \<open>\<open>str.isspace\<close> on code points below 256: TAB..CR, FS..US, space, NEL, NBSP.\<close>
  "is_space c =
     (let n = (of_char c :: nat)
      in (9 \<le> n \<and> n \<le> 13) \<or> (28 \<le> n \<and> n \<le> 32) \<or> n = 133 \<or> n = 160)"

definition strip :: "string \<Rightarrow> string" where
  \<comment> \<open>\<open>s.strip()\<close>\<close>
  "strip s = rev (dropWhile is_space (rev (dropWhile is_space s)))"

definition lower_char :: "char \<Rightarrow> char" where
  \<comment> \<open>\<open>A..Z\<close> and the Latin-1 capitals (all of 0xC0..0xDE but the multiplication sign).\<close>
  "lower_char c =
     (let n = (of_char c :: nat)
      in if (65 \<le> n \<and> n \<le> 90) \<or> (192 \<le> n \<and> n \<le> 222 \<and> n \<noteq> 215)
         then char_of (n + 32) else c)"

definition lower :: "string \<Rightarrow> string" where
  \<comment> \<open>\<open>s.lower()\<close>\<close>
  "lower s = map lower_char s"

definition startswith :: "string \<Rightarrow> string \<Rightarrow> bool" where
  \<comment> \<open>\<open>s.startswith(p)\<close>\<close>
  "startswith s p = (take (length p) s = p)"

fun join :: "string \<Rightarrow> string list \<Rightarrow> string" where
  \<comment> \<open>\<open>sep.join(xs)\<close>\<close>
  "join sep [] = []"
| "join sep [x] = x"
| "join sep (x # y # ys) = x @ sep @ join sep (y # ys)"

subsection \<open>Python values and the remote service\<close>

datatype exn =
  KeyError string
  | IndexError
  | TypeError
  | AttributeError
  | APIError string

datatype pyval = PyStr string | PyList "string list"

fun py_iter :: "pyval \<Rightarrow> string list" where
  \<comment> \<open>What \<open>for x in v\<close> yields: the elements of a list, the one-character strings of a \<open>str\<close>.\<close>
  "py_iter (PyList xs) = xs"
| "py_iter (PyStr s) = map (\<lambda>c. [c]) s"

datatype block = TextBlock string | OtherBlock
  \<comment> \<open>a content segment with a \<open>text\<close> attribute, or one without\<close>

datatype content =
  NoContent
  | NonList
  | Blocks "block list"
  \<comment> \<open>\<open>response.content\<close>: \<open>None\<close>; a non-empty value that is neither a list nor
      subscriptable; a list of segments (the empty list is falsy, as \<open>None\<close> is)\<close>

record request =
  max_tokens :: nat
  model :: string
  prompt :: string

type_synonym client = "nat \<Rightarrow> request \<Rightarrow> exn + content"

definition model_map :: "string \<rightharpoonup> string" where
  "model_map =
     [''Haiku'' \<mapsto> ''claude-3-haiku-20240307'',
      ''Sonnet'' \<mapsto> ''claude-3-sonnet-20240229'',
      ''Opus'' \<mapsto> ''claude-3-opus-20240229'']"

definition lookup_model :: "string \<Rightarrow> exn + string" where
  \<comment> \<open>\<open>model_map[model_type]\<close>\<close>
  "lookup_model model_type =
     (case model_map model_type of None \<Rightarrow> Inl (KeyError model_type) | Some m \<Rightarrow> Inr m)"

definition build_prompt :: "string \<Rightarrow> bool \<Rightarrow> string" where
  "build_prompt question request_explanation =
     (if request_explanation
      then question @ '' Begin your response with 'yes' or 'no', and then provide an explanation.''
      else question @ '' Do not reply with anything other than 'yes' or 'no'.'')"

definition error_or_no_data :: string where
  "error_or_no_data = ''Error or no data''"

fun shape_ok :: "content \<Rightarrow> bool" where
  \<comment> \<open>\<open>c and isinstance(c, list) and hasattr(c[0], "text")\<close>\<close>
  "shape_ok (Blocks (TextBlock t # bs)) = True"
| "shape_ok c = False"

fun first_text :: "content \<Rightarrow> exn + string" where
  \<comment> \<open>\<open>c[0].text.strip()\<close>\<close>
  "first_text NoContent = Inl TypeError"
| "first_text NonList = Inl TypeError"
| "first_text (Blocks []) = Inl IndexError"
| "first_text (Blocks (OtherBlock # bs)) = Inl AttributeError"
| "first_text (Blocks (TextBlock t # bs)) = Inr (strip t)"

subsection \<open>\<open>query_claude\<close>\<close>

definition query_claude_try :: "client \<Rightarrow> nat \<Rightarrow> string \<Rightarrow> string \<Rightarrow> bool \<Rightarrow> exn + string option" where
  \<comment> \<open>The body of the \<open>try\<close>: raises, returns a text, or falls through (\<open>None\<close>).\<close>
  "query_claude_try client i question model_type request_explanation =
     (let prompt = build_prompt question request_explanation
      in case lookup_model model_type of
           Inl e \<Rightarrow> Inl e
         | Inr m \<Rightarrow>
             (case client i \<lparr>max_tokens = 500, model = m, prompt = prompt\<rparr> of
                Inl e \<Rightarrow> Inl e
              | Inr c \<Rightarrow>
                  if shape_ok c then map_sum id Some (first_text c) else Inr None))"

definition query_claude :: "client \<Rightarrow> nat \<Rightarrow> string \<Rightarrow> string \<Rightarrow> bool \<Rightarrow> exn + string" where
  \<comment> \<open>The handler prints the exception and falls through to the final \<open>return\<close>.\<close>
  "query_claude client i question model_type request_explanation =
     (case query_claude_try client i question model_type request_explanation of
        Inl e \<Rightarrow> Inr error_or_no_data
      | Inr (Some t) \<Rightarrow> Inr t
      | Inr None \<Rightarrow> Inr error_or_no_data)"

subsection \<open>\<open>query_claude_async\<close>\<close>

definition send_message_async :: "client \<Rightarrow> string \<Rightarrow> nat \<Rightarrow> string \<Rightarrow> exn + content" where
  "send_message_async client model_type i content =
     (case lookup_model model_type of
        Inl e \<Rightarrow> Inl e
      | Inr m \<Rightarrow> client i \<lparr>max_tokens = 500, model = m, prompt = content\<rparr>)"

fun gather :: "(exn + 'a) list \<Rightarrow> exn + 'a list" where
  \<comment> \<open>\<open>asyncio.gather\<close> without \<open>return_exceptions\<close>: the results in the order of the
      arguments, or one exception for the whole batch (here the one of least index;
      the caller discards it).\<close>
  "gather [] = Inr []"
| "gather (Inl e # rs) = Inl e"
| "gather (Inr x # rs) = (case gather rs of Inl e \<Rightarrow> Inl e | Inr xs \<Rightarrow> Inr (x # xs))"

definition query_claude_async_try ::
  "client \<Rightarrow> string \<Rightarrow> string \<Rightarrow> bool \<Rightarrow> nat \<Rightarrow> exn + string list option" where
  "query_claude_async_try client question model_type request_explanation num_queries =
     (let prompt = build_prompt question request_explanation
      in case gather (map (\<lambda>i. send_message_async client model_type i prompt) [0..<num_queries]) of
           Inl e \<Rightarrow> Inl e
         | Inr response \<Rightarrow>
             (case response of
                [] \<Rightarrow> Inl IndexError
              | r0 # rs \<Rightarrow>
                  if shape_ok r0 then map_sum id Some (gather (map first_text response))
                  else Inr None))"

definition query_claude_async :: "client \<Rightarrow> string \<Rightarrow> string \<Rightarrow> bool \<Rightarrow> nat \<Rightarrow> exn + pyval" where
  "query_claude_async client question model_type request_explanation num_queries =
     (case query_claude_async_try client question model_type request_explanation num_queries of
        Inl e \<Rightarrow> Inr (PyStr error_or_no_data)
      | Inr (Some ts) \<Rightarrow> Inr (PyList ts)
      | Inr None \<Rightarrow> Inr (PyStr error_or_no_data))"

subsection \<open>\<open>is_valid_response\<close> and the verdict\<close>

definition is_valid_response :: "string \<Rightarrow> bool \<Rightarrow> bool" where
  "is_valid_response response request_explanation =
     (if request_explanation
      then startswith (lower response) ''yes'' \<or> startswith (lower response) ''no''
      else lower response \<in> set [''yes'', ''no''])"

datatype verdict = Yes | No | Invalid

definition classify :: "string \<Rightarrow> bool \<Rightarrow> verdict" where
  \<comment> \<open>The branches of the sequential loop that pick the counter to increment.\<close>
  "classify response_text request_explanation =
     (if is_valid_response response_text request_explanation
      then (if startswith (lower response_text) ''yes'' then Yes else No)
      else Invalid)"

subsection \<open>\<open>summarize_explanations\<close>\<close>

definition summary_header :: string where
  "summary_header =
     ''Please provide a concise summary of the main points from the following explanations:''
     @ [CHR 0x0A, CHR 0x0A]"

definition summary_prompt :: "pyval \<Rightarrow> string" where
  "summary_prompt explanations = summary_header @ join [CHR 0x0A] (py_iter explanations)"

definition summarize_explanations :: "client \<Rightarrow> nat \<Rightarrow> pyval \<Rightarrow> exn + string" where
  \<comment> \<open>No \<open>try\<close> here: an exception of \<open>messages.create\<close> leaves the function.\<close>
  "summarize_explanations client i explanations =
     (case client i \<lparr>max_tokens = 200, model = ''claude-3-opus-20240229'',
                      prompt = summary_prompt explanations\<rparr> of
        Inl e \<Rightarrow> Inl e
      | Inr c \<Rightarrow>
          if shape_ok c then first_text c else Inr ''Error summarizing explanations'')"

subsection \<open>The interval of \<open>scipy.stats.beta\<close>\<close>

text \<open>
  Modelled from the spec: \<open>scipy.stats.beta.interval\<close> is library code outside \<open>src/\<close>.
  The spec reads it as the pair of percentiles of the Beta distribution that leave equal
  tails, which is how the library defines \<open>interval\<close> from its quantile function \<open>ppf\<close>.
  Both shape parameters the program passes are positive integers, and for those the
  distribution function of Beta(a, b) is the binomial tail
  \<open>\<Sum>j=a..a+b-1. C(a+b-1, j) x^j (1-x)^(a+b-1-j)\<close>: it vanishes at 0 and its derivative is
  the density \<open>x^(a-1) (1-x)^(b-1) / B(a, b)\<close>, where \<open>1 / B(a, b) = (a+b-1)! / ((a-1)! (b-1)!)\<close>
  (lemmas \<open>beta_cdf_0\<close> and \<open>beta_cdf_deriv\<close> below). The quantile at level \<open>q\<close> is the
  least point of \<open>[0, 1]\<close> where the distribution function reaches \<open>q\<close>; it is the only
  point where the distribution function equals \<open>q\<close> (lemma \<open>beta_ppf_unique\<close>).
\<close>

definition beta_density :: "nat \<Rightarrow> nat \<Rightarrow> real \<Rightarrow> real" where
  "beta_density a b x =
     fact (a + b - 1) / (fact (a - 1) * fact (b - 1)) * x ^ (a - 1) * (1 - x) ^ (b - 1)"

definition beta_cdf :: "nat \<Rightarrow> nat \<Rightarrow> real \<Rightarrow> real" where
  "beta_cdf a b x =
     (\<Sum>j = a..<a + b. real ((a + b - 1) choose j) * x ^ j * (1 - x) ^ (a + b - 1 - j))"

definition beta_ppf :: "real \<Rightarrow> nat \<Rightarrow> nat \<Rightarrow> real" where
  "beta_ppf q a b = Inf {x. 0 \<le> x \<and> x \<le> 1 \<and> q \<le> beta_cdf a b x}"

definition beta_interval :: "real \<Rightarrow> nat \<Rightarrow> nat \<Rightarrow> real \<times> real" where
  "beta_interval confidence a b =
     (beta_ppf ((1 - confidence) / 2) a b, beta_ppf ((1 + confidence) / 2) a b)"

text \<open>
  An auxiliary quantity for the bounds below: the largest probability of the binomial
  distribution with \<open>y + n\<close> trials and success probability \<open>y / (y + n)\<close>, taken at \<open>y\<close>.
\<close>

definition binomial_peak :: "nat \<Rightarrow> nat \<Rightarrow> real" where
  "binomial_peak y n =
     real ((y + n) choose y) * (real y / real (y + n)) ^ y * (real n / real (y + n)) ^ n"

subsection \<open>\<open>main\<close>\<close>

record inputs =
  form_model_type :: string
  form_question :: string
  form_num_queries :: nat
  form_request_explanation :: bool
  form_use_async :: bool

record tally =
  yes_count :: nat
  no_count :: nat
  valid_responses :: nat
  raw_responses :: pyval
  explanations :: pyval

definition sum_bools :: "bool list \<Rightarrow> nat" where
  \<comment> \<open>\<open>sum\<close> of a list of booleans\<close>
  "sum_bools bs = sum_list (map of_bool bs)"

definition async_tally :: "pyval \<Rightarrow> bool \<Rightarrow> tally" where
  "async_tally raw request_explanation =
     (let valid_list = map (\<lambda>r_text. is_valid_response r_text request_explanation) (py_iter raw);
          yes_list = map (\<lambda>(r_text, is_valid). startswith (lower r_text) ''yes'' \<and> is_valid)
                       (zip (py_iter raw) valid_list);
          no_list = map (\<lambda>(r_text, is_valid). startswith (lower r_text) ''no'' \<and> is_valid)
                      (zip (py_iter raw) valid_list)
      in \<lparr>yes_count = sum_bools yes_list,
          no_count = sum_bools no_list,
          valid_responses = sum_bools valid_list,
          raw_responses = raw,
          explanations = (if request_explanation then raw else PyList [])\<rparr>)"

record loop_vars =
  l_yes :: nat
  l_no :: nat
  l_valid :: nat
  l_raw :: "string list"
  l_explanations :: "string list"

definition loop_init :: loop_vars where
  "loop_init = \<lparr>l_yes = 0, l_no = 0, l_valid = 0, l_raw = [], l_explanations = []\<rparr>"

definition record_response :: "bool \<Rightarrow> string \<Rightarrow> loop_vars \<Rightarrow> loop_vars" where
  \<comment> \<open>The loop body after the query.\<close>
  "record_response request_explanation response_text s =
     (let s1 = s\<lparr>l_raw := l_raw s @ [response_text]\<rparr>
      in if is_valid_response response_text request_explanation
         then (let s2 = (if startswith (lower response_text) ''yes''
                         then s1\<lparr>l_yes := l_yes s1 + 1\<rparr>
                         else s1\<lparr>l_no := l_no s1 + 1\<rparr>);
                   s3 = s2\<lparr>l_valid := l_valid s2 + 1\<rparr>
               in if request_explanation
                  then s3\<lparr>l_explanations := l_explanations s3 @ [response_text]\<rparr>
                  else s3)
         else s1)"

fun sequential_loop ::
  "client \<Rightarrow> string \<Rightarrow> string \<Rightarrow> bool \<Rightarrow> nat list \<Rightarrow> loop_vars \<Rightarrow> exn + loop_vars" where
  \<comment> \<open>\<open>for i in range(num_queries)\<close>, over the indices still to run\<close>
  "sequential_loop client q m e [] s = Inr s"
| "sequential_loop client q m e (i # js) s =
     (case query_claude client i q m e of
        Inl ex \<Rightarrow> Inl ex
      | Inr response_text \<Rightarrow> sequential_loop client q m e js (record_response e response_text s))"

definition tally_of_loop :: "loop_vars \<Rightarrow> tally" where
  "tally_of_loop s =
     \<lparr>yes_count = l_yes s, no_count = l_no s, valid_responses = l_valid s,
      raw_responses = PyList (l_raw s), explanations = PyList (l_explanations s)\<rparr>"

definition dispatch :: "client \<Rightarrow> inputs \<Rightarrow> exn + tally" where
  \<comment> \<open>The two branches of \<open>if use_async\<close>.\<close>
  "dispatch client inp =
     (if form_use_async inp
      then (case query_claude_async client (form_question inp) (form_model_type inp)
                   (form_request_explanation inp) (form_num_queries inp) of
              Inl ex \<Rightarrow> Inl ex
            | Inr raw \<Rightarrow> Inr (async_tally raw (form_request_explanation inp)))
      else map_sum id tally_of_loop
             (sequential_loop client (form_question inp) (form_model_type inp) (form_request_explanation inp)
                [0..<form_num_queries inp] loop_init))"

datatype display =
  Success nat real real real "string option"
  | Error string
  \<comment> \<open>\<open>st.success\<close> with the valid count, the percentage, the two bounds and the summary
      appended to the text, or \<open>st.error\<close> with its message\<close>

record run =
  counted :: tally
  summarized :: "pyval option"
  shown :: display

definition report :: "tally \<Rightarrow> bool \<Rightarrow> string option \<Rightarrow> display" where
  \<comment> \<open>\<open>if valid_responses > 0: ... else: st.error(...)\<close>\<close>
  "report t request_explanation explanation_summary =
     (if valid_responses t > 0
      then (let yes_percentage = real (yes_count t) / real (valid_responses t) * 100;
                (ci_low, ci_high) = beta_interval (95 / 100) (yes_count t + 1) (no_count t + 1)
            in Success (valid_responses t) yes_percentage (ci_low * 100) (ci_high * 100)
                 (if request_explanation then explanation_summary else None))
      else Error ''No valid responses received from Claude.'')"

definition main :: "client \<Rightarrow> inputs \<Rightarrow> exn + run" where
  \<comment> \<open>The summary request is the call after the \<open>num_queries\<close> queries.\<close>
  "main client inp =
     (case dispatch client inp of
        Inl ex \<Rightarrow> Inl ex
      | Inr t \<Rightarrow>
          (case (if form_request_explanation inp \<and> valid_responses t > 0
                 then map_sum id Some
                        (summarize_explanations client (form_num_queries inp) (explanations t))
                 else Inr None) of
             Inl ex \<Rightarrow> Inl ex
           | Inr explanation_summary \<Rightarrow>
               Inr \<lparr>counted = t,
                    summarized = (if form_request_explanation inp \<and> valid_responses t > 0
                                  then Some (explanations t) else None),
                    shown = report t (form_request_explanation inp) explanation_summary\<rparr>))"

subsection \<open>The classifier in the spec's words\<close>

definition spec_classify :: "string \<Rightarrow> bool \<Rightarrow> verdict" where
  \<comment> \<open>The spec's reading: compare the trimmed lowercase text.\<close>
  "spec_classify t explanation_mode =
     (let u = lower (strip t)
      in if explanation_mode
         then (if startswith u ''yes'' then Yes else if startswith u ''no'' then No else Invalid)
         else (if u = ''yes'' then Yes else if u = ''no'' then No else Invalid))"

subsection \<open>Scripted services for the scenarios\<close>

definition reply :: "string \<Rightarrow> exn + content" where
  "reply t = Inr (Blocks [TextBlock t])"

definition scripted :: "(exn + content) list \<Rightarrow> client" where
  \<comment> \<open>The \<open>i\<close>-th call gets the \<open>i\<close>-th outcome of the script, whatever the request.\<close>
  "scripted outcomes i req =
     (if i < length outcomes then outcomes ! i else Inl (APIError ''script exhausted''))"

definition ask :: "nat \<Rightarrow> bool \<Rightarrow> bool \<Rightarrow> inputs" where
  \<comment> \<open>A filled form: the number of queries and the two checkboxes vary.\<close>
  "ask n explain async =
     \<lparr>form_model_type = ''Haiku'', form_question = ''Is water wet?'', form_num_queries = n,
      form_request_explanation = explain, form_use_async = async\<rparr>"

subsection \<open>Reading a run\<close>

fun estimate_of :: "display \<Rightarrow> real option" where
  "estimate_of (Success v pct lo hi s) = Some pct"
| "estimate_of (Error msg) = None"

fun interval_of :: "display \<Rightarrow> (real \<times> real) option" where
  "interval_of (Success v pct lo hi s) = Some (lo, hi)"
| "interval_of (Error msg) = None"

definition spec_invalid_count :: "bool \<Rightarrow> tally \<Rightarrow> nat" where
  \<comment> \<open>The spec's \<open>invalidCount\<close>, which the program never computes: the number of
      raw outcomes, as the program iterates over them, that are not valid.\<close>
  "spec_invalid_count request_explanation t =
     length (filter (\<lambda>r_text. \<not> is_valid_response r_text request_explanation)
               (py_iter (raw_responses t)))"

definition spec_counts :: "bool \<Rightarrow> tally \<Rightarrow> nat \<times> nat \<times> nat" where
  "spec_counts request_explanation t =
     (yes_count t, no_count t, spec_invalid_count request_explanation t)"

section \<open>Properties\<close>

subsection \<open>Stripping\<close>

lemma dropWhile_self: "xs = [] \<or> \<not> P (hd xs) \<Longrightarrow> dropWhile P xs = xs"
  by (cases xs) auto

lemma strip_strip: "strip (strip s) = strip s"
proof -
  define a where "a = dropWhile is_space s"
  define b where "b = dropWhile is_space (rev a)"
  have u: "strip s = rev b" by (simp add: strip_def a_def b_def)
  have bb: "dropWhile is_space b = b" by (simp add: b_def)
  have "dropWhile is_space (rev b) = rev b"
  proof (cases "b = []")
    case True then show ?thesis by simp
  next
    case False
    then have an: "a \<noteq> []" by (auto simp: b_def)
    obtain pre where p: "rev a = pre @ b"
      unfolding b_def by (metis takeWhile_dropWhile_id)
    have "last b = last (rev a)" using p False by simp
    also have "\<dots> = hd a" using an by (simp add: last_rev)
    finally have "hd (rev b) = hd a" using False by (simp add: hd_rev)
    moreover have "\<not> is_space (hd a)" using an unfolding a_def by (rule hd_dropWhile)
    ultimately show ?thesis by (intro dropWhile_self) simp
  qed
  then have "strip (rev b) = rev b"
    unfolding strip_def by (simp only: rev_rev_ident bb)
  then show ?thesis unfolding u .
qed

lemma strip_sentinel: "strip error_or_no_data = error_or_no_data"
  by code_simp

lemma first_text_stripped: "first_text c = Inr t \<Longrightarrow> strip t = t"
  by (cases c rule: first_text.cases) (auto simp: strip_strip)

subsection \<open>The gateway\<close>

lemma query_claude_cases:
  "query_claude client i q m e = Inr error_or_no_data
   \<or> (\<exists>c t. first_text c = Inr t \<and> query_claude client i q m e = Inr t)"
  by (auto simp: query_claude_def query_claude_try_def Let_def map_sum_def
      split: sum.splits option.splits)

lemma query_claude_Inr: "\<exists>t. query_claude client i q m e = Inr t"
  using query_claude_cases [of client i q m e] by auto

lemma query_claude_stripped: "query_claude client i q m e = Inr t \<Longrightarrow> strip t = t"
  using query_claude_cases [of client i q m e]
  by (auto simp: strip_sentinel first_text_stripped)

lemma gather_Inr: "gather rs = Inr xs \<Longrightarrow> rs = map Inr xs"
  by (induction rs arbitrary: xs rule: gather.induct) (auto split: sum.splits)

lemma gather_first_text:
  assumes "gather (map first_text cs) = Inr ts" and "t \<in> set ts"
  shows "strip t = t"
proof -
  from assms(1) have "map first_text cs = map Inr ts" by (rule gather_Inr)
  then have "Inr t \<in> set (map first_text cs)" using assms(2) by simp
  then obtain c where "first_text c = Inr t" by auto
  then show ?thesis by (rule first_text_stripped)
qed

lemma gather_first_text_Cons:
  "gather (first_text c # map first_text cs) = Inr ts \<Longrightarrow> t \<in> set ts \<Longrightarrow> strip t = t"
  using gather_first_text [of "c # cs" ts t] by simp

lemma query_claude_async_stripped:
  "query_claude_async client q m e n = Inr (PyList ts) \<Longrightarrow> t \<in> set ts \<Longrightarrow> strip t = t"
  by (auto simp: query_claude_async_def query_claude_async_try_def Let_def map_sum_def
      split: sum.splits option.splits list.splits if_splits dest: gather_first_text_Cons)

subsection \<open>The classifier\<close>

lemma yes_not_no: "startswith s ''yes'' \<Longrightarrow> \<not> startswith s ''no''"
  by (cases s) (auto simp: startswith_def)

lemma classify_stripped: "strip t = t \<Longrightarrow> classify t e = spec_classify t e"
  by (auto simp: classify_def spec_classify_def is_valid_response_def startswith_def)

lemma classify_sentinel: "classify error_or_no_data e = Invalid"
  by (cases e) (simp_all add: classify_def is_valid_response_def, code_simp+)

text \<open>
  C9, as amended. \<open>query_claude\<close> returns a value for every input and never raises: the
  trimmed text of the first content segment when the call succeeds with a well-formed
  response, and the fixed sentinel text "Error or no data" when the model name is unknown,
  the call raises, or the response is malformed. The cause of a failure is not part of the
  returned value.
\<close>

theorem query_claude_returns_text_or_sentinel:
  "query_claude client i q m e =
     Inr (case lookup_model m of
            Inl ex \<Rightarrow> error_or_no_data
          | Inr mid \<Rightarrow>
              (case client i \<lparr>max_tokens = 500, model = mid, prompt = build_prompt q e\<rparr> of
                 Inl ex \<Rightarrow> error_or_no_data
               | Inr c \<Rightarrow>
                   (case c of
                      Blocks (TextBlock t # bs) \<Rightarrow> strip t
                    | _ \<Rightarrow> error_or_no_data)))"
  by (auto simp: query_claude_def query_claude_try_def Let_def map_sum_def
      split: sum.splits option.splits content.splits list.splits block.splits)

text \<open>
  C9, as stated, fails: two calls that fail for different causes return the same value,
  which is also the value of a successful call whose text is "Error or no data"; the
  returned value carries no cause.
\<close>

theorem query_claude_cause_not_carried:
  "query_claude (scripted [Inl (APIError ''connection reset'')]) 0 ''Is water wet?'' ''Haiku'' False
     = query_claude (scripted [Inl (APIError ''rate limited'')]) 0 ''Is water wet?'' ''Haiku'' False
   \<and> APIError ''connection reset'' \<noteq> APIError ''rate limited''
   \<and> query_claude (scripted [Inl (APIError ''connection reset'')]) 0 ''Is water wet?'' ''Haiku'' False
     = query_claude (scripted [reply ''Error or no data'']) 0 ''Is water wet?'' ''Haiku'' False"
  by code_simp

text \<open>
  C10. Every text the gateway returns, in the sequential and in the parallel path, is
  free of leading and trailing whitespace, so on it the classifier agrees with the
  trimmed comparison of the spec; the classifier itself does not trim, and finds " yes"
  Invalid although its trimmed form "yes" is valid.
\<close>

theorem gateway_strips_classifier_does_not:
  "(query_claude client i q m e = Inr t
      \<longrightarrow> strip t = t \<and> classify t e' = spec_classify t e')
   \<and> (query_claude_async client q m e n = Inr (PyList ts)
      \<longrightarrow> (\<forall>t \<in> set ts. strip t = t \<and> classify t e' = spec_classify t e'))
   \<and> \<not> is_valid_response '' yes'' False \<and> \<not> is_valid_response '' yes'' True
   \<and> strip '' yes'' = ''yes''
   \<and> is_valid_response ''yes'' False \<and> is_valid_response ''yes'' True"
proof -
  have a: "query_claude client i q m e = Inr t
      \<longrightarrow> strip t = t \<and> classify t e' = spec_classify t e'"
    by (auto dest: query_claude_stripped simp: classify_stripped)
  have b: "query_claude_async client q m e n = Inr (PyList ts)
      \<longrightarrow> (\<forall>t \<in> set ts. strip t = t \<and> classify t e' = spec_classify t e')"
    by (auto dest: query_claude_async_stripped simp: classify_stripped)
  have c: "\<not> is_valid_response '' yes'' False \<and> \<not> is_valid_response '' yes'' True
   \<and> strip '' yes'' = ''yes''
   \<and> is_valid_response ''yes'' False \<and> is_valid_response ''yes'' True"
    by code_simp
  show ?thesis using a b c by blast
qed

theorem gateway_strips_classifier_does_not_witness:
  "query_claude (scripted [reply '' Yes '', reply ''no '']) 0 ''Is water wet?'' ''Haiku'' False
       = Inr ''Yes''
   \<and> strip ''Yes'' = ''Yes''
   \<and> classify ''Yes'' False = spec_classify ''Yes'' False
   \<and> query_claude_async (scripted [reply '' Yes '', reply ''no '']) ''Is water wet?'' ''Haiku'' False 2
       = Inr (PyList [''Yes'', ''no''])
   \<and> strip ''no'' = ''no''"
proof -
  have a: "query_claude (scripted [reply '' Yes '', reply ''no '']) 0 ''Is water wet?''
             ''Haiku'' False = Inr ''Yes''"
    by code_simp
  have b: "query_claude_async (scripted [reply '' Yes '', reply ''no '']) ''Is water wet?''
             ''Haiku'' False 2 = Inr (PyList [''Yes'', ''no''])"
    by code_simp
  from gateway_strips_classifier_does_not
         [of "scripted [reply '' Yes '', reply ''no '']" 0 "''Is water wet?''" "''Haiku''"
             False "''Yes''" False 2 "[''Yes'', ''no'']"] a b
  show ?thesis by simp
qed

subsection \<open>The Beta quantiles\<close>

lemma beta_cdf_0: "0 < a \<Longrightarrow> beta_cdf a b 0 = 0"
  by (simp add: beta_cdf_def)

lemma beta_cdf_1: assumes "0 < b" shows "beta_cdf a b 1 = 1"
proof -
  have "beta_cdf a b 1 = (\<Sum>j = a..<a + b. if j = a + b - 1 then 1 else 0)"
    unfolding beta_cdf_def by (rule sum.cong) (auto simp: power_0_left)
  also have "\<dots> = 1" using assms by (simp add: sum.delta)
  finally show ?thesis .
qed

lemma beta_cdf_continuous: "isCont (beta_cdf a b) x"
  unfolding beta_cdf_def [abs_def] by (intro continuous_intros)

lemma quantile_set_nonempty:
  "0 < b \<Longrightarrow> q \<le> 1 \<Longrightarrow> 1 \<in> {x. 0 \<le> x \<and> x \<le> 1 \<and> q \<le> beta_cdf a b x}"
  by (simp add: beta_cdf_1)

lemma quantile_set_bdd: "bdd_below {x::real. 0 \<le> x \<and> x \<le> 1 \<and> P x}"
  by (rule bdd_belowI [of _ 0]) simp

lemma beta_ppf_ge_0: "0 < b \<Longrightarrow> q \<le> 1 \<Longrightarrow> 0 \<le> beta_ppf q a b"
  unfolding beta_ppf_def
  by (rule cInf_greatest) (use quantile_set_nonempty [of b q a] in auto)

lemma beta_ppf_le_1: "0 < b \<Longrightarrow> q \<le> 1 \<Longrightarrow> beta_ppf q a b \<le> 1"
  unfolding beta_ppf_def
  by (rule cInf_lower [OF quantile_set_nonempty quantile_set_bdd])

lemma beta_ppf_mono:
  assumes "0 < b" "q1 \<le> q2" "q2 \<le> 1"
  shows "beta_ppf q1 a b \<le> beta_ppf q2 a b"
  unfolding beta_ppf_def
proof (rule cInf_superset_mono)
  show "{x. 0 \<le> x \<and> x \<le> 1 \<and> q2 \<le> beta_cdf a b x} \<noteq> {}"
    using quantile_set_nonempty [OF assms(1,3), of a] by blast
  show "bdd_below {x. 0 \<le> x \<and> x \<le> 1 \<and> q1 \<le> beta_cdf a b x}"
    by (rule quantile_set_bdd)
  show "{x. 0 \<le> x \<and> x \<le> 1 \<and> q2 \<le> beta_cdf a b x}
          \<subseteq> {x. 0 \<le> x \<and> x \<le> 1 \<and> q1 \<le> beta_cdf a b x}"
    using assms(2) by auto
qed

lemma cont_nbhd_less:
  fixes f :: "real \<Rightarrow> real"
  assumes "isCont f m" "f m < q"
  shows "\<exists>d>0. \<forall>x. \<bar>x - m\<bar> < d \<longrightarrow> f x < q"
proof -
  from assms(2) have "0 < q - f m" by simp
  with assms(1) obtain d where d: "d > 0" "\<forall>x. \<bar>x - m\<bar> < d \<longrightarrow> \<bar>f x - f m\<bar> < q - f m"
    unfolding isCont_def LIM_def dist_real_def
    by (metis abs_zero cancel_comm_monoid_add_class.diff_cancel)
  then have "\<forall>x. \<bar>x - m\<bar> < d \<longrightarrow> f x < q" by (smt (verit))
  with d(1) show ?thesis by blast
qed

lemma beta_ppf_reaches:
  assumes "0 < b" "q \<le> 1"
  shows "q \<le> beta_cdf a b (beta_ppf q a b)"
proof (rule ccontr)
  let ?S = "{x. 0 \<le> x \<and> x \<le> 1 \<and> q \<le> beta_cdf a b x}"
  let ?m = "beta_ppf q a b"
  assume "\<not> q \<le> beta_cdf a b ?m"
  then have "beta_cdf a b ?m < q" by simp
  then obtain d where d: "d > 0" "\<forall>x. \<bar>x - ?m\<bar> < d \<longrightarrow> beta_cdf a b x < q"
    using cont_nbhd_less [OF beta_cdf_continuous] by blast
  have ne: "?S \<noteq> {}" using quantile_set_nonempty [OF assms, of a] by blast
  have "Inf ?S < ?m + d" using d(1) by (simp add: beta_ppf_def)
  then obtain x where x: "x \<in> ?S" "x < ?m + d"
    using cInf_less_iff [OF ne quantile_set_bdd] by blast
  have "?m \<le> x" unfolding beta_ppf_def by (rule cInf_lower [OF x(1) quantile_set_bdd])
  then have "\<bar>x - ?m\<bar> < d" using x(2) by simp
  then have "beta_cdf a b x < q" using d(2) by blast
  with x(1) show False by simp
qed

lemma beta_ppf_exact:
  assumes "0 < a" "0 < b" "0 \<le> q" "q \<le> 1"
  shows "beta_cdf a b (beta_ppf q a b) = q"
proof (rule ccontr)
  let ?S = "{x. 0 \<le> x \<and> x \<le> 1 \<and> q \<le> beta_cdf a b x}"
  let ?m = "beta_ppf q a b"
  assume "beta_cdf a b ?m \<noteq> q"
  with beta_ppf_reaches [OF assms(2,4), of a] have gt: "q < beta_cdf a b ?m" by simp
  have m0: "0 \<le> ?m" by (rule beta_ppf_ge_0 [OF assms(2,4)])
  have m1: "?m \<le> 1" by (rule beta_ppf_le_1 [OF assms(2,4)])
  have "\<exists>x\<ge>0. x \<le> ?m \<and> beta_cdf a b x = q"
  proof (rule IVT)
    show "beta_cdf a b 0 \<le> q" using assms(1,3) by (simp add: beta_cdf_0)
    show "q \<le> beta_cdf a b ?m" using gt by simp
    show "0 \<le> ?m" by (rule m0)
    show "\<forall>x. 0 \<le> x \<and> x \<le> ?m \<longrightarrow> isCont (beta_cdf a b) x"
      by (simp add: beta_cdf_continuous)
  qed
  then obtain x where x: "0 \<le> x" "x \<le> ?m" "beta_cdf a b x = q" by blast
  then have "x \<in> ?S" using m1 by simp
  then have "?m \<le> x" unfolding beta_ppf_def by (rule cInf_lower [OF _ quantile_set_bdd])
  with x(2) have "x = ?m" by simp
  with x(3) gt show False by simp
qed

lemma beta_ppf_pos:
  assumes "0 < a" "0 < b" "0 < q" "q \<le> 1"
  shows "0 < beta_ppf q a b"
proof -
  have "beta_cdf a b (beta_ppf q a b) = q"
    using assms by (intro beta_ppf_exact) simp_all
  then have "beta_ppf q a b \<noteq> 0" using assms(1,3) by (auto simp: beta_cdf_0)
  with beta_ppf_ge_0 [OF assms(2,4), of a] show ?thesis by simp
qed

lemma beta_ppf_less_1:
  assumes "0 < a" "0 < b" "0 \<le> q" "q < 1"
  shows "beta_ppf q a b < 1"
proof -
  have "beta_cdf a b (beta_ppf q a b) = q"
    using assms by (intro beta_ppf_exact) simp_all
  then have "beta_ppf q a b \<noteq> 1" using assms(2,4) by (auto simp: beta_cdf_1)
  with beta_ppf_le_1 [of b q a] assms show ?thesis by simp
qed

lemma beta_ppf_strict_mono:
  assumes "0 < a" "0 < b" "0 \<le> q1" "q1 < q2" "q2 \<le> 1"
  shows "beta_ppf q1 a b < beta_ppf q2 a b"
proof -
  have "beta_cdf a b (beta_ppf q1 a b) = q1" "beta_cdf a b (beta_ppf q2 a b) = q2"
    using assms by (simp_all add: beta_ppf_exact)
  then have "beta_ppf q1 a b \<noteq> beta_ppf q2 a b" using assms(4) by auto
  moreover have "beta_ppf q1 a b \<le> beta_ppf q2 a b"
    using assms by (intro beta_ppf_mono) simp_all
  ultimately show ?thesis by simp
qed

lemma binomial_shift:
  "real (Suc j) * real (n choose Suc j) = real (n - j) * real (n choose j)"
proof -
  have "Suc j * (n choose Suc j) = (n - j) * (n choose j)"
    by (simp only: binomial_absorption binomial_absorb_comp)
  then show ?thesis by (metis of_nat_mult)
qed

lemma beta_term_deriv:
  fixes x :: real
  assumes "0 < j" "j \<le> n"
  shows "((\<lambda>x. real (n choose j) * x ^ j * (1 - x) ^ (n - j)) has_real_derivative
           (real j * real (n choose j) * x ^ (j - 1) * (1 - x) ^ (n - j)
            - real (Suc j) * real (n choose Suc j) * x ^ j * (1 - x) ^ (n - Suc j))) (at x)"
proof -
  have d: "((\<lambda>x. real (n choose j) * x ^ j * (1 - x) ^ (n - j)) has_real_derivative
           (real (n choose j) * (real j * x ^ (j - 1)) * (1 - x) ^ (n - j)
            + real (n choose j) * x ^ j * (real (n - j) * (1 - x) ^ (n - j - 1) * (0 - 1))))
          (at x)"
    by (auto intro!: derivative_eq_intros)
  have "real (Suc j) * real (n choose Suc j) * x ^ j * (1 - x) ^ (n - Suc j)
          = real (n - j) * real (n choose j) * x ^ j * (1 - x) ^ (n - Suc j)"
    by (simp only: binomial_shift)
  moreover have "n - j - 1 = n - Suc j" by simp
  ultimately have eq:
    "real (n choose j) * (real j * x ^ (j - 1)) * (1 - x) ^ (n - j)
       + real (n choose j) * x ^ j * (real (n - j) * (1 - x) ^ (n - j - 1) * (0 - 1))
     = real j * real (n choose j) * x ^ (j - 1) * (1 - x) ^ (n - j)
       - real (Suc j) * real (n choose Suc j) * x ^ j * (1 - x) ^ (n - Suc j)"
    by (simp only:) (simp add: algebra_simps)
  show ?thesis using d unfolding eq .
qed

lemma beta_norm:
  assumes "0 < a" "0 < b"
  shows "real a * real ((a + b - 1) choose a) = fact (a + b - 1) / (fact (a - 1) * fact (b - 1))"
proof -
  obtain a' where a: "a = Suc a'" using assms(1) by (cases a) auto
  have "a \<le> a + b - 1" using assms by simp
  then have "real ((a + b - 1) choose a) = fact (a + b - 1) / (fact a * fact (a + b - 1 - a))"
    by (rule binomial_fact)
  moreover have "a + b - 1 - a = b - 1" by simp
  moreover have "(fact a :: real) = real a * fact (a - 1)" by (simp add: a)
  ultimately show ?thesis using assms(1) by simp
qed

lemma beta_cdf_deriv:
  assumes "0 < a" "0 < b"
  shows "(beta_cdf a b has_real_derivative beta_density a b x) (at x)"
proof -
  define n where "n = a + b - 1"
  define G where "G j = real j * real (n choose j) * x ^ (j - 1) * (1 - x) ^ (n - j)" for j
  have "((\<lambda>x. \<Sum>j = a..<a + b. real (n choose j) * x ^ j * (1 - x) ^ (n - j))
          has_real_derivative (\<Sum>j = a..<a + b. G j - G (Suc j))) (at x)"
  proof (rule DERIV_sum)
    fix j assume "j \<in> {a..<a + b}"
    then have "0 < j" "j \<le> n" using assms by (auto simp: n_def)
    then show "((\<lambda>x. real (n choose j) * x ^ j * (1 - x) ^ (n - j)) has_real_derivative
                 G j - G (Suc j)) (at x)"
      unfolding G_def using beta_term_deriv [of j n x] by simp
  qed
  moreover have "(\<Sum>j = a..<a + b. G j - G (Suc j)) = G a - G (a + b)"
  proof -
    have "(\<Sum>j = a..<a + b. G j - G (Suc j)) = - (\<Sum>j = a..<a + b. G (Suc j) - G j)"
      by (simp add: sum_negf [symmetric])
    also have "\<dots> = - (G (a + b) - G a)" by (simp add: sum_Suc_diff')
    finally show ?thesis by simp
  qed
  moreover have "G (a + b) = 0" using assms by (simp add: G_def n_def)
  moreover have "G a = beta_density a b x"
  proof -
    have "n - a = b - 1" by (simp add: n_def)
    then show ?thesis
      using beta_norm [OF assms] by (simp add: G_def beta_density_def n_def)
  qed
  ultimately show ?thesis
    by (simp add: beta_cdf_def [abs_def] n_def)
qed

lemma beta_density_pos: "0 < x \<Longrightarrow> x < 1 \<Longrightarrow> 0 < beta_density a b x"
  by (simp add: beta_density_def)

lemma beta_cdf_strict_mono:
  assumes "0 < a" "0 < b" "0 \<le> x" "x < y" "y \<le> 1"
  shows "beta_cdf a b x < beta_cdf a b y"
proof (rule DERIV_pos_imp_increasing_open [OF assms(4)])
  fix z assume "x < z" "z < y"
  then have "0 < z" "z < 1" using assms by simp_all
  then show "\<exists>d. (beta_cdf a b has_real_derivative d) (at z) \<and> 0 < d"
    using beta_cdf_deriv [OF assms(1,2)] beta_density_pos by blast
next
  show "continuous_on {x..y} (beta_cdf a b)"
    by (simp add: continuous_at_imp_continuous_on beta_cdf_continuous)
qed

lemma beta_ppf_unique:
  assumes "0 < a" "0 < b" "0 \<le> x" "x \<le> 1" "beta_cdf a b x = q"
  shows "x = beta_ppf q a b"
proof -
  have q: "0 \<le> q" "q \<le> 1"
  proof -
    have "beta_cdf a b 0 \<le> beta_cdf a b x"
      using beta_cdf_strict_mono [OF assms(1,2), of 0 x] assms(3,4) by (cases "x = 0") auto
    then show "0 \<le> q" using assms(1,5) by (simp add: beta_cdf_0)
    have "beta_cdf a b x \<le> beta_cdf a b 1"
      using beta_cdf_strict_mono [OF assms(1,2), of x 1] assms(3,4) by (cases "x = 1") auto
    then show "q \<le> 1" using assms(2,5) by (simp add: beta_cdf_1)
  qed
  let ?m = "beta_ppf q a b"
  have m: "0 \<le> ?m" "?m \<le> 1" "beta_cdf a b ?m = q"
    using beta_ppf_ge_0 [OF assms(2) q(2)] beta_ppf_le_1 [OF assms(2) q(2)]
      beta_ppf_exact [OF assms(1,2) q] by simp_all
  show ?thesis
  proof (rule ccontr)
    assume "x \<noteq> ?m"
    then consider "x < ?m" | "?m < x" by linarith
    then show False
    proof cases
      case 1
      from beta_cdf_strict_mono [OF assms(1,2,3) 1 m(2)] show False
        using assms(5) m(3) by simp
    next
      case 2
      from beta_cdf_strict_mono [OF assms(1,2) m(1) 2 assms(4)] show False
        using assms(5) m(3) by simp
    qed
  qed
qed

subsection \<open>The share of "yes" lies between the two quantiles\<close>

lemma euler_step:
  assumes "0 < k"
  shows "(1 + 1 / real k) ^ k \<le> (1 + 1 / real (Suc k)) ^ Suc k"
proof -
  define d where "d = real (Suc k)"
  have d: "1 < d" using assms by (simp add: d_def)
  have k: "real k = d - 1" by (simp add: d_def)
  define r where "r = (d - 1) / d"
  define s where "s = (d + 1) / d"
  have r: "0 < r" using d by (simp add: r_def)
  have "1 \<le> d\<^sup>2" using d by (intro one_le_power) simp
  then have "1 / d\<^sup>2 \<le> 1" using d by (simp add: divide_le_eq_1)
  then have "- 1 \<le> - (1 / d\<^sup>2)" by simp
  from Bernoulli_inequality [OF this, of "Suc k"]
  have "1 + d * - (1 / d\<^sup>2) \<le> (1 + - (1 / d\<^sup>2)) ^ Suc k" by (simp only: d_def)
  moreover have "1 + d * - (1 / d\<^sup>2) = r"
    using d by (simp add: r_def field_simps power2_eq_square)
  moreover have "1 + - (1 / d\<^sup>2) = r * s"
    using d by (simp add: r_def s_def field_simps power2_eq_square)
  ultimately have "r \<le> (r * s) ^ Suc k" by simp
  then have "r * 1 \<le> r * (r ^ k * s ^ Suc k)" by (simp add: power_mult_distrib mult_ac)
  then have one: "1 \<le> r ^ k * s ^ Suc k" using r by (simp only: mult_le_cancel_left_pos)
  have inv: "(1 / r) ^ k * r ^ k = 1" using r by (simp add: power_mult_distrib [symmetric])
  have "(1 / r) ^ k * 1 \<le> (1 / r) ^ k * (r ^ k * s ^ Suc k)"
    using one r by (intro mult_left_mono) simp_all
  then have "(1 / r) ^ k \<le> s ^ Suc k" using inv by (simp add: mult.assoc [symmetric])
  moreover have "1 / r = 1 + 1 / real k" using d by (simp add: r_def k field_simps)
  moreover have "s = 1 + 1 / real (Suc k)"
  proof -
    have "s = 1 + 1 / d" using d by (simp add: s_def field_simps)
    then show ?thesis by (simp only: d_def)
  qed
  ultimately show ?thesis by simp
qed

lemma euler_mono:
  assumes "0 < j" "j \<le> k"
  shows "(1 + 1 / real j) ^ j \<le> (1 + 1 / real k) ^ k"
  using assms(2,1)
proof (induction rule: dec_induct)
  case base
  show ?case by simp
next
  case (step m)
  then have "0 < m" by simp
  from euler_step [OF this] step show ?case by (meson order_trans)
qed

lemma binomial_peak_nonneg: "0 \<le> binomial_peak y n"
  by (simp add: binomial_peak_def)

lemma binomial_peak_step:
  assumes "0 < y" "0 < n"
  shows "binomial_peak (Suc y) n \<le> binomial_peak y n"
proof -
  define Y where "Y = real y"
  define N where "N = real n"
  define S where "S = real (y + n)"
  define c0 where "c0 = real ((y + n) choose y)"
  define c1 where "c1 = real ((Suc (y + n)) choose Suc y)"
  define u where "u = 1 + 1 / Y"
  define w where "w = 1 / (1 + 1 / S)"
  define P where "P = Y / S"
  define Q where "Q = N / S"
  have pos: "0 < Y" "0 < N" "0 < S" using assms by (simp_all add: Y_def N_def S_def)
  have nz: "Y \<noteq> 0" "S \<noteq> 0" "S + 1 \<noteq> 0" using pos by simp_all
  have S1: "real (Suc (y + n)) = S + 1" and Y1: "real (Suc y) = Y + 1"
    by (simp_all add: S_def Y_def)
  have "Suc y * ((Suc (y + n)) choose Suc y) = Suc (y + n) * ((y + n) choose y)"
    by (rule Suc_times_binomial)
  then have "real (Suc y) * real ((Suc (y + n)) choose Suc y)
               = real (Suc (y + n)) * real ((y + n) choose y)"
    by (metis of_nat_mult)
  then have c: "(Y + 1) * c1 = (S + 1) * c0"
    by (simp only: S1 Y1 c1_def c0_def)
  have e: "u ^ y \<le> (1 + 1 / S) ^ (y + n)"
    unfolding u_def Y_def S_def using assms by (intro euler_mono) simp_all
  have "0 < 1 + 1 / S" using pos by (simp add: add_pos_pos)
  then have e2pos: "0 < (1 + 1 / S) ^ (y + n)" by (rule zero_less_power)
  have wpow: "w ^ (y + n) = 1 / (1 + 1 / S) ^ (y + n)"
    by (simp add: w_def power_one_over)
  have i1: "u = (Y + 1) / Y" using nz by (simp add: u_def field_simps)
  have i2: "w = S / (S + 1)" using nz by (simp add: w_def field_simps)
  have b1: "(Y + 1) / (S + 1) = P * (u * w)"
    unfolding i1 i2 P_def using nz by simp
  have b2: "N / (S + 1) = Q * w"
    unfolding i2 Q_def using nz by simp
  have "binomial_peak (Suc y) n = c1 * ((Y + 1) / (S + 1)) ^ Suc y * (N / (S + 1)) ^ n"
    unfolding binomial_peak_def c1_def by (simp only: add_Suc S1 Y1 N_def)
  also have "\<dots> = (c1 * (Y + 1) / (S + 1)) * ((Y + 1) / (S + 1)) ^ y * (N / (S + 1)) ^ n"
    by simp
  also have "c1 * (Y + 1) / (S + 1) = c0"
    using c nz by (simp add: field_simps)
  also have "c0 * ((Y + 1) / (S + 1)) ^ y * (N / (S + 1)) ^ n
      = c0 * (P * (u * w)) ^ y * (Q * w) ^ n"
    by (simp only: b1 b2)
  also have "\<dots> = (c0 * P ^ y * Q ^ n) * (u ^ y * w ^ (y + n))"
    by (simp add: power_mult_distrib power_add mult_ac)
  also have "c0 * P ^ y * Q ^ n = binomial_peak y n"
    by (simp add: binomial_peak_def c0_def P_def Q_def Y_def N_def S_def)
  finally have eq: "binomial_peak (Suc y) n = binomial_peak y n * (u ^ y * w ^ (y + n))" .
  have "u ^ y * w ^ (y + n) \<le> 1" unfolding wpow using e e2pos by simp
  then have "binomial_peak y n * (u ^ y * w ^ (y + n)) \<le> binomial_peak y n * 1"
    by (intro mult_left_mono binomial_peak_nonneg)
  then show ?thesis by (simp add: eq)
qed

lemma binomial_peak_commute: "binomial_peak y n = binomial_peak n y"
proof -
  have "(y + n) choose y = (n + y) choose n"
    using binomial_symmetric [of y "y + n"] by (simp add: add.commute)
  then show ?thesis by (simp add: binomial_peak_def add.commute mult_ac)
qed

lemma binomial_peak_antimono:
  assumes "0 < y" "y \<le> y'" "0 < n"
  shows "binomial_peak y' n \<le> binomial_peak y n"
  using assms(2,1)
proof (induction rule: dec_induct)
  case base
  show ?case by simp
next
  case (step m)
  then have "0 < m" by simp
  from binomial_peak_step [OF this assms(3)] step show ?case by (meson order_trans)
qed

lemma binomial_peak_diagonal:
  assumes "0 < y" "y \<le> m" "0 < n" "n \<le> m"
  shows "binomial_peak m m \<le> binomial_peak y n"
proof -
  have m: "0 < m" using assms by simp
  have "binomial_peak m m \<le> binomial_peak m n"
    using binomial_peak_antimono [OF assms(3,4) m] by (simp add: binomial_peak_commute)
  also have "\<dots> \<le> binomial_peak y n"
    by (rule binomial_peak_antimono [OF assms(1,2,3)])
  finally show ?thesis .
qed

lemma central_step:
  "real (Suc m) * real ((2 * Suc m) choose Suc m) = 2 * real (2 * m + 1) * real ((2 * m) choose m)"
proof -
  define A where "A = (Suc (Suc (2 * m))) choose Suc m"
  define B where "B = (Suc (2 * m)) choose m"
  define C where "C = (2 * m) choose m"
  have a: "Suc m * A = Suc (Suc (2 * m)) * B"
    unfolding A_def B_def by (rule Suc_times_binomial)
  have "B = (Suc (2 * m)) choose (Suc m)"
    unfolding B_def using binomial_symmetric [of m "Suc (2 * m)"] by (simp del: binomial_Suc_Suc)
  moreover have "Suc m * ((Suc (2 * m)) choose Suc m) = Suc (2 * m) * C"
    unfolding C_def by (rule Suc_times_binomial)
  ultimately have b: "Suc m * B = Suc (2 * m) * C" by simp
  have "Suc m * (Suc m * A) = Suc m * (Suc (Suc (2 * m)) * B)" by (simp only: a)
  also have "\<dots> = Suc (Suc (2 * m)) * (Suc m * B)" by (simp only: mult.left_commute)
  also have "\<dots> = Suc (Suc (2 * m)) * (Suc (2 * m) * C)" by (simp only: b)
  also have "\<dots> = Suc m * (2 * (2 * m + 1) * C)" by simp
  finally have "Suc m * A = 2 * (2 * m + 1) * C" by (simp only: mult_cancel1) simp
  moreover have "2 * Suc m = Suc (Suc (2 * m))" by simp
  ultimately have "Suc m * ((2 * Suc m) choose Suc m) = 2 * (2 * m + 1) * ((2 * m) choose m)"
    by (simp only: A_def C_def)
  then show ?thesis by (metis of_nat_mult of_nat_numeral)
qed

lemma central_ratio:
  "real ((2 * Suc m) choose Suc m) / 4 ^ Suc m
     = real ((2 * m) choose m) / 4 ^ m * (real (2 * m + 1) / (2 * real (Suc m)))"
proof -
  define A where "A = real ((2 * Suc m) choose Suc m)"
  define C where "C = real ((2 * m) choose m)"
  define k where "k = real (Suc m)"
  define j where "j = real (2 * m + 1)"
  have k: "0 < k" by (simp add: k_def)
  have "k * A = 2 * j * C" unfolding k_def A_def j_def C_def by (rule central_step)
  then have "A = 2 * j * C / k" using k by (simp add: field_simps)
  then have "A / 4 ^ Suc m = C / 4 ^ m * (j / (2 * k))" using k by simp
  then show ?thesis by (simp only: A_def C_def k_def j_def)
qed

lemma central_bound:
  assumes "0 < m"
  shows "1 \<le> 4 * real m * (real ((2 * m) choose m) / 4 ^ m)\<^sup>2"
  using assms
proof (induction m rule: nat_induct_non_zero)
  case 1
  show ?case by (simp add: power2_eq_square)
next
  case (Suc m)
  define c where "c = real ((2 * m) choose m) / 4 ^ m"
  define x where "x = real m"
  have x: "0 < x" using Suc.hyps by (simp add: x_def)
  have ih: "1 \<le> 4 * x * c\<^sup>2" using Suc.IH by (simp only: c_def x_def)
  have j: "real (2 * m + 1) = 2 * x + 1" and k: "real (Suc m) = x + 1"
    by (simp_all add: x_def)
  define d where "d = x + 1"
  define t where "t = 2 * x + 1"
  have d: "d \<noteq> 0" using x by (simp add: d_def)
  have "4 * real (Suc m) * (real ((2 * Suc m) choose Suc m) / 4 ^ Suc m)\<^sup>2
          = 4 * d * (c * (t / (2 * d)))\<^sup>2"
    by (simp only: central_ratio c_def j k d_def t_def)
  also have "\<dots> = c\<^sup>2 * (t\<^sup>2 / d)"
    using d by (simp add: power2_eq_square field_simps)
  finally have eq: "4 * real (Suc m) * (real ((2 * Suc m) choose Suc m) / 4 ^ Suc m)\<^sup>2
          = c\<^sup>2 * ((2 * x + 1)\<^sup>2 / (x + 1))"
    by (simp only: d_def t_def)
  have "4 * x * (x + 1) \<le> (2 * x + 1)\<^sup>2" by (simp add: power2_eq_square algebra_simps)
  then have "4 * x \<le> (2 * x + 1)\<^sup>2 / (x + 1)" using x by (simp add: pos_le_divide_eq)
  then have "c\<^sup>2 * (4 * x) \<le> c\<^sup>2 * ((2 * x + 1)\<^sup>2 / (x + 1))"
    by (intro mult_left_mono) simp_all
  with ih show ?case unfolding eq by (simp add: mult_ac)
qed

lemma binomial_peak_central:
  assumes "0 < m"
  shows "binomial_peak m m = real ((2 * m) choose m) / 4 ^ m"
proof -
  have "real m / real (m + m) = 1 / 2" using assms by simp
  then have "binomial_peak m m = real ((m + m) choose m) * (1 / 2) ^ m * (1 / 2) ^ m"
    by (simp only: binomial_peak_def)
  also have "\<dots> = real ((m + m) choose m) * ((1 / 2) ^ m * (1 / 2) ^ m)" by simp
  also have "(1 / 2 :: real) ^ m * (1 / 2) ^ m = 1 / 4 ^ m"
    by (simp add: power_mult_distrib [symmetric] power_one_over)
  finally show ?thesis by (simp add: mult_2)
qed

lemma binomial_peak_central_bound:
  assumes "0 < m"
  shows "1 \<le> 4 * real m * (binomial_peak m m)\<^sup>2"
  using central_bound [OF assms] by (simp only: binomial_peak_central [OF assms])

lemma binomial_peak_100: "1 / 20 \<le> binomial_peak 100 100"
proof -
  have "1 \<le> 4 * real (100 :: nat) * (binomial_peak 100 100)\<^sup>2"
    by (rule binomial_peak_central_bound) simp
  then have "(1 / 20)\<^sup>2 \<le> (binomial_peak 100 100)\<^sup>2"
    by (simp add: power2_eq_square)
  then show ?thesis
    by (rule power2_le_imp_le) (rule binomial_peak_nonneg)
qed

lemma binomial_peak_bound:
  assumes "0 < y" "y \<le> 100" "0 < n" "n \<le> 100"
  shows "1 / 20 \<le> binomial_peak y n"
  using binomial_peak_100 binomial_peak_diagonal [OF assms] by simp

lemma beta_cdf_first_term:
  assumes "0 \<le> x" "x \<le> 1"
  shows "real ((Suc (y + n)) choose Suc y) * x ^ Suc y * (1 - x) ^ n
           \<le> beta_cdf (Suc y) (Suc n) x"
proof -
  let ?f = "\<lambda>j. real ((Suc y + Suc n - 1) choose j) * x ^ j * (1 - x) ^ (Suc y + Suc n - 1 - j)"
  have "?f (Suc y) \<le> sum ?f {Suc y..<Suc y + Suc n}"
    by (rule member_le_sum) (use assms in auto)
  moreover have "?f (Suc y) = real ((Suc (y + n)) choose Suc y) * x ^ Suc y * (1 - x) ^ n"
    by (simp del: binomial_Suc_Suc power_Suc)
  ultimately show ?thesis by (simp only: beta_cdf_def)
qed

lemma first_term_peak:
  assumes "0 < y" "0 < n"
  shows "binomial_peak y n / 2
           \<le> real ((Suc (y + n)) choose Suc y) * (real y / real (y + n)) ^ Suc y
               * (real n / real (y + n)) ^ n"
proof -
  define Y where "Y = real y"
  define S where "S = real (y + n)"
  define c0 where "c0 = real ((y + n) choose y)"
  define c1 where "c1 = real ((Suc (y + n)) choose Suc y)"
  define R where "R = (Y / S) ^ y * (real n / S) ^ n"
  have pos: "1 \<le> Y" "0 < S" "Y \<le> S" using assms by (simp_all add: Y_def S_def)
  have nz: "Y + 1 \<noteq> 0" "S \<noteq> 0" using pos by simp_all
  have R: "0 \<le> R" using pos by (simp add: R_def Y_def)
  have "Suc y * ((Suc (y + n)) choose Suc y) = Suc (y + n) * ((y + n) choose y)"
    by (rule Suc_times_binomial)
  then have "real (Suc y) * real ((Suc (y + n)) choose Suc y)
               = real (Suc (y + n)) * real ((y + n) choose y)"
    by (metis of_nat_mult)
  moreover have "real (Suc y) = Y + 1" "real (Suc (y + n)) = S + 1"
    by (simp_all add: Y_def S_def)
  ultimately have "(Y + 1) * c1 = (S + 1) * c0" by (simp only: c1_def c0_def)
  then have c1: "c1 = c0 * ((S + 1) / (Y + 1))" using nz by (simp add: field_simps)
  have peak: "binomial_peak y n = c0 * R"
    by (simp add: binomial_peak_def c0_def R_def Y_def S_def)
  have "c1 * (Y / S) ^ Suc y * (real n / S) ^ n = (c0 * R) * ((S + 1) / (Y + 1) * (Y / S))"
    by (simp add: c1 R_def mult_ac)
  moreover have "1 / 2 \<le> (S + 1) / (Y + 1) * (Y / S)"
  proof -
    have "(S + 1) / (Y + 1) * (Y / S) = ((S + 1) * Y) / ((Y + 1) * S)" by simp
    moreover have "(Y + 1) * S \<le> 2 * ((S + 1) * Y)"
    proof -
      have "S \<le> S * Y" using pos by simp
      moreover have "0 \<le> Y * 2" using pos by simp
      ultimately have "S \<le> S * Y + Y * 2" by linarith
      then show ?thesis by (simp add: algebra_simps)
    qed
    moreover have "0 < (Y + 1) * S" using pos by simp
    ultimately show ?thesis by (simp add: pos_le_divide_eq)
  qed
  moreover have "0 \<le> c0 * R" using R by (simp add: c0_def)
  ultimately have "(c0 * R) * (1 / 2) \<le> c1 * (Y / S) ^ Suc y * (real n / S) ^ n"
    by (simp only:) (rule mult_left_mono)
  then show ?thesis by (simp add: peak c1_def Y_def S_def)
qed

lemma mode_mass:
  assumes "0 < y" "y \<le> 100" "0 < n" "n \<le> 100"
  shows "1 / 40 \<le> beta_cdf (Suc y) (Suc n) (real y / real (y + n))"
proof -
  let ?p = "real y / real (y + n)"
  have p: "0 \<le> ?p" "?p \<le> 1" using assms by simp_all
  have q: "1 - ?p = real n / real (y + n)" using assms by (simp add: field_simps)
  have "1 / 40 \<le> binomial_peak y n / 2"
    using binomial_peak_bound [OF assms] by simp
  also have "\<dots> \<le> real ((Suc (y + n)) choose Suc y) * ?p ^ Suc y * (1 - ?p) ^ n"
    unfolding q by (rule first_term_peak [OF assms(1,3)])
  also have "\<dots> \<le> beta_cdf (Suc y) (Suc n) ?p"
    by (rule beta_cdf_first_term [OF p])
  finally show ?thesis .
qed

lemma beta_density_mirror: "beta_density b a (1 - x) = beta_density a b x"
  by (simp add: beta_density_def add.commute mult_ac)

lemma beta_cdf_mirror:
  assumes "0 < a" "0 < b"
  shows "beta_cdf a b x + beta_cdf b a (1 - x) = 1"
proof -
  define G where "G x = beta_cdf a b x + beta_cdf b a (1 - x)" for x
  have "(G has_real_derivative 0) (at z)" for z
  proof -
    have "((\<lambda>x. beta_cdf a b x + beta_cdf b a (1 - x)) has_real_derivative
            beta_density a b z + beta_density b a (1 - z) * (0 - 1)) (at z)"
      by (intro derivative_intros DERIV_chain2 [OF beta_cdf_deriv [OF assms(2,1)]]
          beta_cdf_deriv [OF assms])
    then show ?thesis by (simp add: G_def [abs_def] beta_density_mirror)
  qed
  then have "G x = G 0" using DERIV_isconst_all by blast
  then show ?thesis using assms by (simp add: G_def beta_cdf_0 beta_cdf_1)
qed

lemma share_in_interval:
  assumes "0 < y" "y \<le> 100" "0 < n" "n \<le> 100"
  shows "beta_ppf (1 / 40) (Suc y) (Suc n) \<le> real y / real (y + n)"
    and "real y / real (y + n) \<le> beta_ppf (39 / 40) (Suc y) (Suc n)"
proof -
  let ?p = "real y / real (y + n)"
  have p: "0 \<le> ?p" "?p \<le> 1" using assms by simp_all
  have lo: "1 / 40 \<le> beta_cdf (Suc y) (Suc n) ?p"
    by (rule mode_mass [OF assms])
  have "1 - ?p = real n / real (n + y)" using assms by (simp add: field_simps)
  then have "1 / 40 \<le> beta_cdf (Suc n) (Suc y) (1 - ?p)"
    using mode_mass [OF assms(3,4,1,2)] by simp
  then have hi: "beta_cdf (Suc y) (Suc n) ?p \<le> 39 / 40"
    using beta_cdf_mirror [of "Suc y" "Suc n" ?p] by simp
  show "beta_ppf (1 / 40) (Suc y) (Suc n) \<le> ?p"
    unfolding beta_ppf_def
    by (rule cInf_lower [OF _ quantile_set_bdd]) (use p lo in simp)
  show "?p \<le> beta_ppf (39 / 40) (Suc y) (Suc n)"
  proof (rule ccontr)
    let ?h = "beta_ppf (39 / 40) (Suc y) (Suc n)"
    assume "\<not> ?p \<le> ?h"
    then have less: "?h < ?p" by simp
    have h0: "0 \<le> ?h" by (rule beta_ppf_ge_0) simp_all
    have "beta_cdf (Suc y) (Suc n) ?h = 39 / 40" by (rule beta_ppf_exact) simp_all
    moreover have "beta_cdf (Suc y) (Suc n) ?h < beta_cdf (Suc y) (Suc n) ?p"
      by (rule beta_cdf_strict_mono [OF _ _ h0 less p(2)]) simp_all
    ultimately show False using hi by simp
  qed
qed

subsection \<open>Counting\<close>

lemma valid_yes_or_no:
  "is_valid_response t e \<Longrightarrow> startswith (lower t) ''yes'' \<or> startswith (lower t) ''no''"
  by (cases e) (auto simp: is_valid_response_def startswith_def)

lemma of_bool_verdicts:
  "(of_bool (is_valid_response t e) :: nat)
     = of_bool (startswith (lower t) ''yes'' \<and> is_valid_response t e)
       + of_bool (startswith (lower t) ''no'' \<and> is_valid_response t e)"
  using yes_not_no [of "lower t"] valid_yes_or_no [of t e] by auto

lemma zip_map_self: "zip xs (map f xs) = map (\<lambda>x. (x, f x)) xs"
  by (induction xs) auto

lemma async_tally_counts:
  "yes_count (async_tally raw e)
     = sum_list (map (\<lambda>t. of_bool (startswith (lower t) ''yes'' \<and> is_valid_response t e)) (py_iter raw))"
  "no_count (async_tally raw e)
     = sum_list (map (\<lambda>t. of_bool (startswith (lower t) ''no'' \<and> is_valid_response t e)) (py_iter raw))"
  "valid_responses (async_tally raw e)
     = sum_list (map (\<lambda>t. of_bool (is_valid_response t e)) (py_iter raw))"
  by (simp_all add: async_tally_def Let_def sum_bools_def zip_map_self comp_def)

lemma sum_list_verdicts:
  "sum_list (map (\<lambda>t. of_bool (is_valid_response t e)) ts)
     = sum_list (map (\<lambda>t. of_bool (startswith (lower t) ''yes'' \<and> is_valid_response t e)) ts)
       + (sum_list (map (\<lambda>t. of_bool (startswith (lower t) ''no'' \<and> is_valid_response t e)) ts) :: nat)"
  by (induction ts) (simp_all add: of_bool_verdicts)

lemma async_tally_valid: "valid_responses (async_tally raw e)
   = yes_count (async_tally raw e) + no_count (async_tally raw e)"
  by (simp only: async_tally_counts sum_list_verdicts)

lemma record_response_valid:
  "l_valid s = l_yes s + l_no s \<Longrightarrow>
   l_valid (record_response e t s) = l_yes (record_response e t s) + l_no (record_response e t s)"
  by (simp add: record_response_def Let_def)

lemma sequential_loop_Inr: "\<exists>s'. sequential_loop client q m e js s = Inr s'"
proof (induction js arbitrary: s)
  case Nil
  show ?case by simp
next
  case (Cons i js)
  obtain t where "query_claude client i q m e = Inr t"
    using query_claude_Inr by blast
  then show ?case using Cons.IH by simp
qed

lemma sequential_loop_valid:
  "sequential_loop client q m e js s = Inr s' \<Longrightarrow> l_valid s = l_yes s + l_no s
   \<Longrightarrow> l_valid s' = l_yes s' + l_no s'"
proof (induction js arbitrary: s)
  case Nil
  then show ?case by simp
next
  case (Cons i js)
  obtain t where t: "query_claude client i q m e = Inr t"
    using query_claude_Inr by blast
  with Cons.prems have "sequential_loop client q m e js (record_response e t s) = Inr s'"
    by simp
  then show ?case
    using Cons.prems(2) by (rule Cons.IH [OF _ record_response_valid])
qed

lemma record_response_raw: "l_raw (record_response e t s) = l_raw s @ [t]"
  by (simp add: record_response_def Let_def)

lemma record_response_explanations:
  "l_explanations (record_response e t s)
     = l_explanations s @ (if e \<and> is_valid_response t e then [t] else [])"
  by (simp add: record_response_def Let_def)

lemma sequential_loop_raw:
  "sequential_loop client q m e js s = Inr s' \<Longrightarrow>
   l_raw s' = l_raw s @ map (\<lambda>i. projr (query_claude client i q m e)) js"
proof (induction js arbitrary: s)
  case Nil
  then show ?case by simp
next
  case (Cons i js)
  obtain t where t: "query_claude client i q m e = Inr t"
    using query_claude_Inr by blast
  with Cons.prems have "sequential_loop client q m e js (record_response e t s) = Inr s'"
    by simp
  from Cons.IH [OF this] t show ?case
    by (simp add: record_response_raw)
qed

lemma sequential_loop_explanations:
  "sequential_loop client q m e js s = Inr s' \<Longrightarrow>
   l_explanations s' = l_explanations s
     @ (if e then filter (\<lambda>t. is_valid_response t e)
                    (map (\<lambda>i. projr (query_claude client i q m e)) js) else [])"
proof (induction js arbitrary: s)
  case Nil
  then show ?case by simp
next
  case (Cons i js)
  obtain t where t: "query_claude client i q m e = Inr t"
    using query_claude_Inr by blast
  with Cons.prems have "sequential_loop client q m e js (record_response e t s) = Inr s'"
    by simp
  from Cons.IH [OF this] t show ?case
    by (cases e) (simp_all add: record_response_explanations)
qed

lemma dispatch_Inr: "\<exists>t. dispatch client inp = Inr t"
proof (cases "form_use_async inp")
  case True
  then show ?thesis
    by (auto simp: dispatch_def query_claude_async_def split: sum.splits option.splits)
next
  case False
  then show ?thesis
    using sequential_loop_Inr
      [of client "form_question inp" "form_model_type inp" "form_request_explanation inp"
          "[0..<form_num_queries inp]" loop_init]
    by (auto simp: dispatch_def)
qed

lemma dispatch_valid:
  assumes "dispatch client inp = Inr t"
  shows "valid_responses t = yes_count t + no_count t"
proof (cases "form_use_async inp")
  case True
  with assms obtain raw where "t = async_tally raw (form_request_explanation inp)"
    by (auto simp: dispatch_def split: sum.splits)
  then show ?thesis by (simp only: async_tally_valid)
next
  case False
  with assms obtain s where
    s: "sequential_loop client (form_question inp) (form_model_type inp)
          (form_request_explanation inp) [0..<form_num_queries inp] loop_init = Inr s"
    and t: "t = tally_of_loop s"
    by (auto simp: dispatch_def map_sum_def split: sum.splits)
  have "l_valid s = l_yes s + l_no s"
    by (rule sequential_loop_valid [OF s]) (simp add: loop_init_def)
  then show ?thesis by (simp add: t tally_of_loop_def)
qed

lemma main_Inr:
  assumes "main client inp = Inr r"
  shows "dispatch client inp = Inr (counted r)"
    and "summarized r =
           (if form_request_explanation inp \<and> 0 < valid_responses (counted r)
            then Some (explanations (counted r)) else None)"
    and "\<exists>s. shown r = report (counted r) (form_request_explanation inp) s"
  using assms by (auto simp: main_def split: sum.splits if_splits)

lemma main_no_valid:
  assumes "dispatch client inp = Inr t" and "valid_responses t = 0"
  shows "main client inp =
           Inr \<lparr>counted = t, summarized = None,
                shown = Error ''No valid responses received from Claude.''\<rparr>"
  using assms by (simp add: main_def report_def)

lemma report_valid:
  assumes "0 < valid_responses t"
  shows "report t e s =
           Success (valid_responses t) (real (yes_count t) / real (valid_responses t) * 100)
             (beta_ppf (1 / 40) (yes_count t + 1) (no_count t + 1) * 100)
             (beta_ppf (39 / 40) (yes_count t + 1) (no_count t + 1) * 100)
             (if e then s else None)"
  using assms by (simp add: report_def beta_interval_def Let_def)

text \<open>
  C4. Every run counts its replies, and the valid count is the sum of the two counters.
  When that sum is positive, a run that reports shows yes / (yes + no) as a percentage;
  when it is zero the run computes no estimate and no interval, and shows the message
  "No valid responses received from Claude." instead.
\<close>

theorem estimate_is_yes_share:
  "\<exists>t. dispatch client inp = Inr t
      \<and> valid_responses t = yes_count t + no_count t
      \<and> (yes_count t + no_count t = 0 \<longrightarrow>
           main client inp =
             Inr \<lparr>counted = t, summarized = None,
                  shown = Error ''No valid responses received from Claude.''\<rparr>
           \<and> estimate_of (Error ''No valid responses received from Claude.'') = None
           \<and> interval_of (Error ''No valid responses received from Claude.'') = None)
      \<and> (0 < yes_count t + no_count t \<longrightarrow>
           (\<forall>r. main client inp = Inr r \<longrightarrow>
              estimate_of (shown r)
                = Some (real (yes_count t) / real (yes_count t + no_count t) * 100)))"
proof -
  obtain t where t: "dispatch client inp = Inr t"
    using dispatch_Inr by blast
  have v: "valid_responses t = yes_count t + no_count t"
    by (rule dispatch_valid [OF t])
  have z: "yes_count t + no_count t = 0 \<longrightarrow>
           main client inp =
             Inr \<lparr>counted = t, summarized = None,
                  shown = Error ''No valid responses received from Claude.''\<rparr>"
    using main_no_valid [OF t] v by simp
  have p: "estimate_of (shown r)
             = Some (real (yes_count t) / real (yes_count t + no_count t) * 100)"
    if "0 < yes_count t + no_count t" and r: "main client inp = Inr r" for r
  proof -
    from main_Inr(1) [OF r] t have c: "counted r = t" by simp
    from main_Inr(3) [OF r] obtain s where
      "shown r = report t (form_request_explanation inp) s" using c by auto
    then show ?thesis using that(1) v by (simp add: report_valid)
  qed
  show ?thesis using t v z p by (intro exI [of _ t]) simp
qed

lemma ask_fields:
  "form_num_queries (ask n e a) = n"
  "form_request_explanation (ask n e a) = e"
  "form_use_async (ask n e a) = a"
  by (simp_all add: ask_def)

theorem estimate_is_yes_share_witness:
  "dispatch (scripted [reply ''yes'', reply ''no'', reply ''maybe'', reply ''YES'', reply ''no''])
     (ask 5 False False)
     = Inr \<lparr>yes_count = 2, no_count = 2, valid_responses = 4,
            raw_responses = PyList [''yes'', ''no'', ''maybe'', ''YES'', ''no''],
            explanations = PyList []\<rparr>
   \<and> estimate_of (shown (projr (main
         (scripted [reply ''yes'', reply ''no'', reply ''maybe'', reply ''YES'', reply ''no''])
         (ask 5 False False)))) = Some 50
   \<and> main (scripted [Inl (APIError ''overloaded''), Inl (APIError ''overloaded''),
                     Inl (APIError ''overloaded'')]) (ask 3 False False)
     = Inr \<lparr>counted = \<lparr>yes_count = 0, no_count = 0, valid_responses = 0,
                        raw_responses = PyList [''Error or no data'', ''Error or no data'',
                                                ''Error or no data''],
                        explanations = PyList []\<rparr>,
            summarized = None,
            shown = Error ''No valid responses received from Claude.''\<rparr>"
proof -
  let ?c = "scripted [reply ''yes'', reply ''no'', reply ''maybe'', reply ''YES'', reply ''no'']"
  let ?f = "scripted [Inl (APIError ''overloaded''), Inl (APIError ''overloaded''),
                      Inl (APIError ''overloaded'')]"
  have d: "dispatch ?c (ask 5 False False)
     = Inr \<lparr>yes_count = 2, no_count = 2, valid_responses = 4,
            raw_responses = PyList [''yes'', ''no'', ''maybe'', ''YES'', ''no''],
            explanations = PyList []\<rparr>"
    by code_simp
  have m: "\<exists>r. main ?c (ask 5 False False) = Inr r"
    by (simp add: main_def d ask_fields)
  have e: "estimate_of (shown (projr (main ?c (ask 5 False False)))) = Some 50"
    using estimate_is_yes_share [of ?c "ask 5 False False"] d m by auto
  have d0: "dispatch ?f (ask 3 False False)
     = Inr \<lparr>yes_count = 0, no_count = 0, valid_responses = 0,
            raw_responses = PyList [''Error or no data'', ''Error or no data'',
                                    ''Error or no data''],
            explanations = PyList []\<rparr>"
    by code_simp
  have z: "main ?f (ask 3 False False)
     = Inr \<lparr>counted = \<lparr>yes_count = 0, no_count = 0, valid_responses = 0,
                        raw_responses = PyList [''Error or no data'', ''Error or no data'',
                                                ''Error or no data''],
                        explanations = PyList []\<rparr>,
            summarized = None,
            shown = Error ''No valid responses received from Claude.''\<rparr>"
    using estimate_is_yes_share [of ?f "ask 3 False False"] d0 by auto
  show ?thesis using d e z by simp
qed

text \<open>
  C5. Whenever yes + no is positive, the reported interval is the pair of the 2.5th and
  the 97.5th percentile of Beta(yes + 1, no + 1), each times 100. Both percentiles are
  well defined, also when one of the counters is zero: both parameters are at least 1,
  and each bound is the one point of [0, 1] where the distribution function takes the
  value 0.025, respectively 0.975.
\<close>

theorem interval_is_beta_percentiles:
  assumes "main client inp = Inr r"
    and "0 < yes_count (counted r) + no_count (counted r)"
  shows "interval_of (shown r)
           = Some (beta_ppf (25 / 1000) (yes_count (counted r) + 1) (no_count (counted r) + 1) * 100,
                   beta_ppf (975 / 1000) (yes_count (counted r) + 1) (no_count (counted r) + 1) * 100)
         \<and> beta_cdf (yes_count (counted r) + 1) (no_count (counted r) + 1)
             (beta_ppf (25 / 1000) (yes_count (counted r) + 1) (no_count (counted r) + 1))
             = 25 / 1000
         \<and> beta_cdf (yes_count (counted r) + 1) (no_count (counted r) + 1)
             (beta_ppf (975 / 1000) (yes_count (counted r) + 1) (no_count (counted r) + 1))
             = 975 / 1000
         \<and> (0 \<le> x \<and> x \<le> 1
              \<and> beta_cdf (yes_count (counted r) + 1) (no_count (counted r) + 1) x = 25 / 1000
            \<longrightarrow> x = beta_ppf (25 / 1000) (yes_count (counted r) + 1) (no_count (counted r) + 1))
         \<and> (0 \<le> x' \<and> x' \<le> 1
              \<and> beta_cdf (yes_count (counted r) + 1) (no_count (counted r) + 1) x' = 975 / 1000
            \<longrightarrow> x' = beta_ppf (975 / 1000) (yes_count (counted r) + 1) (no_count (counted r) + 1))
         \<and> 1 \<le> yes_count (counted r) + 1 \<and> 1 \<le> no_count (counted r) + 1"
proof -
  let ?a = "yes_count (counted r) + 1" and ?b = "no_count (counted r) + 1"
  have v: "0 < valid_responses (counted r)"
    using dispatch_valid [OF main_Inr(1) [OF assms(1)]] assms(2) by simp
  from main_Inr(3) [OF assms(1)] obtain s where
    "shown r = report (counted r) (form_request_explanation inp) s" by auto
  then have i: "interval_of (shown r)
           = Some (beta_ppf (25 / 1000) ?a ?b * 100, beta_ppf (975 / 1000) ?a ?b * 100)"
    using v by (simp add: report_valid)
  have lo: "beta_cdf ?a ?b (beta_ppf (25 / 1000) ?a ?b) = 25 / 1000"
    by (rule beta_ppf_exact) simp_all
  have hi: "beta_cdf ?a ?b (beta_ppf (975 / 1000) ?a ?b) = 975 / 1000"
    by (rule beta_ppf_exact) simp_all
  have ulo: "x = beta_ppf (25 / 1000) ?a ?b"
    if "0 \<le> x" "x \<le> 1" "beta_cdf ?a ?b x = 25 / 1000"
    using that by (intro beta_ppf_unique) simp_all
  have uhi: "x' = beta_ppf (975 / 1000) ?a ?b"
    if "0 \<le> x'" "x' \<le> 1" "beta_cdf ?a ?b x' = 975 / 1000"
    using that by (intro beta_ppf_unique) simp_all
  show ?thesis using i lo hi ulo uhi by simp
qed

lemma main_all_yes:
  "main (scripted (replicate 10 (reply ''yes''))) (ask 10 False False)
     = Inr \<lparr>counted = \<lparr>yes_count = 10, no_count = 0, valid_responses = 10,
                        raw_responses = PyList (replicate 10 ''yes''),
                        explanations = PyList []\<rparr>,
            summarized = None,
            shown = Success 10 100 (beta_ppf (1 / 40) 11 1 * 100)
                      (beta_ppf (39 / 40) 11 1 * 100) None\<rparr>"
proof -
  have d: "dispatch (scripted (replicate 10 (reply ''yes''))) (ask 10 False False)
     = Inr \<lparr>yes_count = 10, no_count = 0, valid_responses = 10,
            raw_responses = PyList (replicate 10 ''yes''), explanations = PyList []\<rparr>"
    by code_simp
  show ?thesis by (simp add: main_def d ask_fields report_valid)
qed

theorem interval_is_beta_percentiles_witness:
  "main (scripted (replicate 10 (reply ''yes''))) (ask 10 False False)
     = Inr \<lparr>counted = \<lparr>yes_count = 10, no_count = 0, valid_responses = 10,
                        raw_responses = PyList (replicate 10 ''yes''),
                        explanations = PyList []\<rparr>,
            summarized = None,
            shown = Success 10 100 (beta_ppf (1 / 40) 11 1 * 100)
                      (beta_ppf (39 / 40) 11 1 * 100) None\<rparr>
   \<and> beta_cdf 11 1 (beta_ppf (25 / 1000) 11 1) = 25 / 1000
   \<and> beta_cdf 11 1 (beta_ppf (975 / 1000) 11 1) = 975 / 1000
   \<and> 0 \<le> beta_ppf (25 / 1000) 11 1 \<and> beta_ppf (25 / 1000) 11 1 \<le> 1
   \<and> 0 \<le> beta_ppf (975 / 1000) 11 1 \<and> beta_ppf (975 / 1000) 11 1 \<le> 1"
proof -
  have b: "0 \<le> beta_ppf (1 / 40) 11 1" "beta_ppf (1 / 40) 11 1 \<le> 1"
    "0 \<le> beta_ppf (39 / 40) 11 1" "beta_ppf (39 / 40) 11 1 \<le> 1"
    by (simp_all add: beta_ppf_ge_0 beta_ppf_le_1)
  from interval_is_beta_percentiles
         [OF main_all_yes, of "beta_ppf (25 / 1000) 11 1" "beta_ppf (975 / 1000) 11 1"]
       main_all_yes b
  show ?thesis by simp
qed

lemma main_two_yes:
  "main (scripted [reply ''yes'', reply ''yes'']) (ask 2 False False)
     = Inr \<lparr>counted = \<lparr>yes_count = 2, no_count = 0, valid_responses = 2,
                        raw_responses = PyList [''yes'', ''yes''],
                        explanations = PyList []\<rparr>,
            summarized = None,
            shown = Success 2 100 (beta_ppf (1 / 40) 3 1 * 100)
                      (beta_ppf (39 / 40) 3 1 * 100) None\<rparr>"
proof -
  have d: "dispatch (scripted [reply ''yes'', reply ''yes'']) (ask 2 False False)
     = Inr \<lparr>yes_count = 2, no_count = 0, valid_responses = 2,
            raw_responses = PyList [''yes'', ''yes''], explanations = PyList []\<rparr>"
    by code_simp
  show ?thesis by (simp add: main_def d ask_fields report_valid)
qed

text \<open>
  C8, as stated, fails: it asks for estimate \<le> high and, when no = 0, for high < 100,
  but then the estimate is 100. Two replies "yes" give the estimate 100 and a high bound
  below 100.
\<close>

theorem estimate_above_high_counterexample:
  "main (scripted [reply ''yes'', reply ''yes'']) (ask 2 False False)
     = Inr \<lparr>counted = \<lparr>yes_count = 2, no_count = 0, valid_responses = 2,
                        raw_responses = PyList [''yes'', ''yes''],
                        explanations = PyList []\<rparr>,
            summarized = None,
            shown = Success 2 100 (beta_ppf (1 / 40) 3 1 * 100)
                      (beta_ppf (39 / 40) 3 1 * 100) None\<rparr>
   \<and> \<not> (100 \<le> beta_ppf (39 / 40) 3 1 * 100)"
proof -
  have "beta_ppf (39 / 40) 3 1 < 1" by (rule beta_ppf_less_1) simp_all
  then show ?thesis using main_two_yes by simp
qed

subsection \<open>The counts partition the raw outcomes\<close>

lemma sum_list_of_bool: "sum_list (map (\<lambda>x. of_bool (P x)) xs) = length (filter P xs)"
  by (induction xs) simp_all

lemma record_response_valid_count:
  "l_valid (record_response e t s) = l_valid s + of_bool (is_valid_response t e)"
  by (simp add: record_response_def Let_def)

lemma sequential_loop_valid_count:
  "sequential_loop client q m e js s = Inr s' \<Longrightarrow>
   l_valid s' = l_valid s
     + length (filter (\<lambda>t. is_valid_response t e)
                 (map (\<lambda>i. projr (query_claude client i q m e)) js))"
proof (induction js arbitrary: s)
  case Nil
  then show ?case by simp
next
  case (Cons i js)
  obtain t where t: "query_claude client i q m e = Inr t"
    using query_claude_Inr by blast
  with Cons.prems have "sequential_loop client q m e js (record_response e t s) = Inr s'"
    by simp
  from Cons.IH [OF this] t show ?case
    by (simp add: record_response_valid_count)
qed

lemma dispatch_valid_count:
  assumes "dispatch client inp = Inr t"
  shows "valid_responses t
           = length (filter (\<lambda>r. is_valid_response r (form_request_explanation inp))
                       (py_iter (raw_responses t)))"
proof (cases "form_use_async inp")
  case True
  with assms obtain raw where t: "t = async_tally raw (form_request_explanation inp)"
    by (auto simp: dispatch_def split: sum.splits)
  have "raw_responses t = raw" by (simp add: t async_tally_def Let_def)
  then show ?thesis by (simp add: t async_tally_counts(3) sum_list_of_bool)
next
  case False
  with assms obtain s where
    s: "sequential_loop client (form_question inp) (form_model_type inp)
          (form_request_explanation inp) [0..<form_num_queries inp] loop_init = Inr s"
    and t: "t = tally_of_loop s"
    by (auto simp: dispatch_def map_sum_def split: sum.splits)
  show ?thesis
    using sequential_loop_valid_count [OF s] sequential_loop_raw [OF s]
    by (simp add: t tally_of_loop_def loop_init_def)
qed

lemma dispatch_partition:
  assumes "dispatch client inp = Inr t"
  shows "yes_count t + no_count t + spec_invalid_count (form_request_explanation inp) t
           = length (py_iter (raw_responses t))"
  using dispatch_valid [OF assms] dispatch_valid_count [OF assms]
    sum_length_filter_compl [of "\<lambda>r. is_valid_response r (form_request_explanation inp)"
      "py_iter (raw_responses t)"]
  by (simp add: spec_invalid_count_def)

lemma sequential_dispatch:
  assumes "\<not> form_use_async inp" and "dispatch client inp = Inr t"
  shows "raw_responses t
           = PyList (map (\<lambda>i. projr (query_claude client i (form_question inp)
                                  (form_model_type inp) (form_request_explanation inp)))
                       [0..<form_num_queries inp])"
    and "explanations t
           = PyList (if form_request_explanation inp
                     then filter (\<lambda>r. is_valid_response r (form_request_explanation inp))
                            (py_iter (raw_responses t))
                     else [])"
proof -
  from assms obtain s where
    s: "sequential_loop client (form_question inp) (form_model_type inp)
          (form_request_explanation inp) [0..<form_num_queries inp] loop_init = Inr s"
    and t: "t = tally_of_loop s"
    by (auto simp: dispatch_def map_sum_def split: sum.splits)
  show "raw_responses t
           = PyList (map (\<lambda>i. projr (query_claude client i (form_question inp)
                                  (form_model_type inp) (form_request_explanation inp)))
                       [0..<form_num_queries inp])"
    using sequential_loop_raw [OF s] by (simp add: t tally_of_loop_def loop_init_def)
  then show "explanations t
           = PyList (if form_request_explanation inp
                     then filter (\<lambda>r. is_valid_response r (form_request_explanation inp))
                            (py_iter (raw_responses t))
                     else [])"
    using sequential_loop_explanations [OF s] by (simp add: t tally_of_loop_def loop_init_def)
qed

lemma gather_length: "gather rs = Inr xs \<Longrightarrow> length xs = length rs"
  by (induction rs arbitrary: xs rule: gather.induct) (auto split: sum.splits)

lemma query_claude_async_length:
  "query_claude_async client q m e n = Inr (PyList ts) \<Longrightarrow> length ts = n"
  by (auto simp: query_claude_async_def query_claude_async_try_def Let_def map_sum_def
      split: sum.splits option.splits list.splits if_splits dest!: gather_length)

lemma query_claude_async_shape:
  "query_claude_async client q m e n = Inr (PyStr error_or_no_data)
   \<or> (\<exists>ts. query_claude_async client q m e n = Inr (PyList ts) \<and> length ts = n)"
  using query_claude_async_length [of client q m e n]
  by (auto simp: query_claude_async_def split: sum.splits option.splits)

lemma short_not_verdict:
  assumes "length u \<le> 1"
  shows "u \<noteq> ''yes''" "u \<noteq> ''no''" "\<not> startswith u ''yes''" "\<not> startswith u ''no''"
  using assms by (auto simp: startswith_def)

lemma length_strip_le: "length (strip r) \<le> length r"
proof -
  have "length (strip r) \<le> length (dropWhile is_space r)"
    unfolding strip_def using length_dropWhile_le [of is_space "rev (dropWhile is_space r)"]
    by simp
  also have "\<dots> \<le> length r" by (rule length_dropWhile_le)
  finally show ?thesis .
qed

lemma short_invalid:
  assumes "length r \<le> 1"
  shows "\<not> is_valid_response r e" and "classify r e = Invalid"
    and "spec_classify r e = Invalid"
proof -
  have a: "length (lower r) \<le> 1" using assms by (simp add: lower_def)
  have b: "length (lower (strip r)) \<le> 1"
    using length_strip_le [of r] assms by (simp add: lower_def)
  show v: "\<not> is_valid_response r e"
    using short_not_verdict [OF a] by (simp add: is_valid_response_def)
  then show "classify r e = Invalid" by (simp add: classify_def)
  show "spec_classify r e = Invalid"
    using short_not_verdict [OF b] by (simp add: spec_classify_def Let_def)
qed

lemma dispatch_raw_cases:
  assumes "dispatch client inp = Inr t" and "r \<in> set (py_iter (raw_responses t))"
  shows "strip r = r \<or> (raw_responses t = PyStr error_or_no_data \<and> length r = 1)"
proof (cases "form_use_async inp")
  case False
  from sequential_dispatch(1) [OF False assms(1)] assms(2)
  obtain i where "r = projr (query_claude client i (form_question inp) (form_model_type inp)
                               (form_request_explanation inp))"
    by auto
  moreover obtain x where "query_claude client i (form_question inp) (form_model_type inp)
                               (form_request_explanation inp) = Inr x"
    using query_claude_Inr by blast
  ultimately show ?thesis using query_claude_stripped by fastforce
next
  case True
  with assms(1) obtain raw where
    q: "query_claude_async client (form_question inp) (form_model_type inp)
          (form_request_explanation inp) (form_num_queries inp) = Inr raw"
    and t: "t = async_tally raw (form_request_explanation inp)"
    by (auto simp: dispatch_def split: sum.splits)
  have raw: "raw_responses t = raw" by (simp add: t async_tally_def Let_def)
  from query_claude_async_shape
    [of client "form_question inp" "form_model_type inp" "form_request_explanation inp"
        "form_num_queries inp"] q
  consider "raw = PyStr error_or_no_data" | ts where "raw = PyList ts"
    by auto
  then show ?thesis
  proof cases
    case 1
    then show ?thesis using assms(2) raw by auto
  next
    case 2
    then show ?thesis
      using assms(2) raw q query_claude_async_stripped by fastforce
  qed
qed

lemma dispatch_valid_le:
  assumes "dispatch client inp = Inr t"
  shows "valid_responses t \<le> form_num_queries inp"
proof (cases "form_use_async inp")
  case False
  have "length (py_iter (raw_responses t)) = form_num_queries inp"
    by (simp add: sequential_dispatch(1) [OF False assms])
  then show ?thesis
    using dispatch_valid_count [OF assms]
      length_filter_le [of "\<lambda>r. is_valid_response r (form_request_explanation inp)"
         "py_iter (raw_responses t)"]
    by simp
next
  case True
  with assms obtain raw where
    q: "query_claude_async client (form_question inp) (form_model_type inp)
          (form_request_explanation inp) (form_num_queries inp) = Inr raw"
    and t: "t = async_tally raw (form_request_explanation inp)"
    by (auto simp: dispatch_def split: sum.splits)
  have raw: "raw_responses t = raw" by (simp add: t async_tally_def Let_def)
  from query_claude_async_shape
    [of client "form_question inp" "form_model_type inp" "form_request_explanation inp"
        "form_num_queries inp"] q
  consider "raw = PyStr error_or_no_data"
    | ts where "raw = PyList ts" "length ts = form_num_queries inp"
    by auto
  then show ?thesis
  proof cases
    case 1
    have "filter (\<lambda>r. is_valid_response r (form_request_explanation inp))
            (py_iter (PyStr error_or_no_data)) = []"
      by (auto simp: filter_empty_conv short_invalid(1))
    then show ?thesis using dispatch_valid_count [OF assms] raw 1 by simp
  next
    case 2
    then show ?thesis
      using dispatch_valid_count [OF assms] raw
        length_filter_le [of "\<lambda>r. is_valid_response r (form_request_explanation inp)" ts]
      by simp
  qed
qed

text \<open>
  C3. On every raw outcome of a run, in the sequential and in the parallel branch, the
  verdict is the one the spec words give: without explanations it is Yes iff the trimmed
  lowercase text is exactly "yes", No iff it is exactly "no", and Invalid otherwise;
  with explanations it is Yes iff the trimmed lowercase text starts with "yes", No iff it
  starts with "no", and Invalid otherwise. A failed query is Invalid: it arrives as the
  sentinel text, or, when the parallel batch fails, as the characters of that text. The
  two flags of the parallel branch agree with the verdict.
\<close>

theorem classify_raw_outcomes:
  assumes "dispatch client inp = Inr t" and "r \<in> set (py_iter (raw_responses t))"
  shows "classify r False
           = (if lower (strip r) = ''yes'' then Yes
              else if lower (strip r) = ''no'' then No else Invalid)
         \<and> classify r True
           = (if startswith (lower (strip r)) ''yes'' then Yes
              else if startswith (lower (strip r)) ''no'' then No else Invalid)
         \<and> classify r e = spec_classify r e
         \<and> ((startswith (lower r) ''yes'' \<and> is_valid_response r e) = (classify r e = Yes))
         \<and> ((startswith (lower r) ''no'' \<and> is_valid_response r e) = (classify r e = No))
         \<and> classify error_or_no_data e = Invalid
         \<and> (raw_responses t = PyStr error_or_no_data \<longrightarrow> classify r e = Invalid)"
proof -
  have s: "classify r e' = spec_classify r e'" for e'
    using dispatch_raw_cases [OF assms] short_invalid(2,3) [of r e'] classify_stripped [of r e']
    by auto
  have a: "classify r False
           = (if lower (strip r) = ''yes'' then Yes
              else if lower (strip r) = ''no'' then No else Invalid)"
    by (simp add: s spec_classify_def Let_def)
  have b: "classify r True
           = (if startswith (lower (strip r)) ''yes'' then Yes
              else if startswith (lower (strip r)) ''no'' then No else Invalid)"
    by (simp add: s spec_classify_def Let_def)
  have c: "(startswith (lower r) ''yes'' \<and> is_valid_response r e) = (classify r e = Yes)"
    by (auto simp: classify_def)
  have d: "(startswith (lower r) ''no'' \<and> is_valid_response r e) = (classify r e = No)"
    using yes_not_no [of "lower r"] valid_yes_or_no [of r e] by (auto simp: classify_def)
  have f: "classify r e = Invalid" if "raw_responses t = PyStr error_or_no_data"
  proof -
    from that assms(2) have "length r = 1" by auto
    then show ?thesis by (simp add: short_invalid(2))
  qed
  show ?thesis using a b s [of e] c d classify_sentinel [of e] f by blast
qed

theorem classify_raw_outcomes_witness:
  "dispatch (scripted [reply '' Yes '', Inl (APIError ''overloaded''), reply ''no''])
       (ask 3 False False)
     = Inr \<lparr>yes_count = 1, no_count = 1, valid_responses = 2,
            raw_responses = PyList [''Yes'', ''Error or no data'', ''no''],
            explanations = PyList []\<rparr>
   \<and> classify ''Yes'' False = Yes \<and> lower (strip ''Yes'') = ''yes''
   \<and> classify ''Yes'' False = spec_classify ''Yes'' False
   \<and> dispatch (scripted [reply '' Yes '', Inl (APIError ''overloaded''), reply ''no''])
       (ask 3 False True)
     = Inr \<lparr>yes_count = 0, no_count = 0, valid_responses = 0,
            raw_responses = PyStr ''Error or no data'', explanations = PyList []\<rparr>
   \<and> classify ''E'' False = Invalid"
proof -
  let ?c = "scripted [reply '' Yes '', Inl (APIError ''overloaded''), reply ''no'']"
  let ?ts = "\<lparr>yes_count = 1, no_count = 1, valid_responses = 2,
            raw_responses = PyList [''Yes'', ''Error or no data'', ''no''],
            explanations = PyList []\<rparr>"
  let ?ta = "\<lparr>yes_count = 0, no_count = 0, valid_responses = 0,
            raw_responses = PyStr ''Error or no data'', explanations = PyList []\<rparr>"
  have ds: "dispatch ?c (ask 3 False False) = Inr ?ts" by code_simp
  have da: "dispatch ?c (ask 3 False True) = Inr ?ta" by code_simp
  have ms: "''Yes'' \<in> set (py_iter (raw_responses ?ts))" by simp
  have ma: "''E'' \<in> set (py_iter (raw_responses ?ta))" by simp
  have l: "lower (strip ''Yes'') = ''yes''" by code_simp
  have ra: "raw_responses ?ta = PyStr error_or_no_data" by (simp add: error_or_no_data_def)
  from classify_raw_outcomes [OF ds ms, of False]
  have a0: "classify ''Yes'' False
          = (if lower (strip ''Yes'') = ''yes'' then Yes
             else if lower (strip ''Yes'') = ''no'' then No else Invalid)"
    and a2: "classify ''Yes'' False = spec_classify ''Yes'' False" by blast+
  have a1: "classify ''Yes'' False = Yes" using a0 by (simp add: l)
  from classify_raw_outcomes [OF da ma, of False] ra
  have b: "classify ''E'' False = Invalid" by blast
  show ?thesis using ds da a1 a2 b l by simp
qed

text \<open>
  C8, as amended. Whenever the estimate and the interval are defined (yes + no positive),
  the bounds satisfy 0 < low < high < 100 and the estimate lies in [0, 100]. When both
  counters are positive, and the number of queries is within the form's maximum of 100,
  low \<le> estimate \<le> high. When no = 0 the estimate is 100 and both bounds are strictly
  below it; when yes = 0 the estimate is 0 and both bounds are strictly above it.
\<close>

theorem interval_brackets_estimate:
  assumes "main client inp = Inr r"
    and "0 < yes_count (counted r) + no_count (counted r)"
  shows "\<exists>pct lo hi.
           estimate_of (shown r) = Some pct \<and> interval_of (shown r) = Some (lo, hi)
           \<and> 0 < lo \<and> lo < hi \<and> hi < 100 \<and> 0 \<le> pct \<and> pct \<le> 100
           \<and> (form_num_queries inp \<le> 100
                \<and> 0 < yes_count (counted r) \<and> 0 < no_count (counted r)
              \<longrightarrow> lo \<le> pct \<and> pct \<le> hi)
           \<and> (no_count (counted r) = 0 \<longrightarrow> pct = 100 \<and> lo < pct \<and> hi < pct)
           \<and> (yes_count (counted r) = 0 \<longrightarrow> pct = 0 \<and> pct < lo \<and> pct < hi)"
proof -
  let ?y = "yes_count (counted r)" and ?n = "no_count (counted r)"
  let ?lo = "beta_ppf (1 / 40) (?y + 1) (?n + 1)"
  let ?hi = "beta_ppf (39 / 40) (?y + 1) (?n + 1)"
  let ?p = "real ?y / real (?y + ?n)"
  have d: "dispatch client inp = Inr (counted r)" by (rule main_Inr(1) [OF assms(1)])
  have v: "valid_responses (counted r) = ?y + ?n" by (rule dispatch_valid [OF d])
  from main_Inr(3) [OF assms(1)] obtain s where
    sh: "shown r = report (counted r) (form_request_explanation inp) s" by auto
  have e: "estimate_of (shown r) = Some (?p * 100)"
    using v assms(2) by (simp add: sh report_valid)
  have i: "interval_of (shown r) = Some (?lo * 100, ?hi * 100)"
    using v assms(2) by (simp add: sh report_valid)
  have lo: "0 < ?lo" by (rule beta_ppf_pos) simp_all
  have hi: "?hi < 1" by (rule beta_ppf_less_1) simp_all
  have lh: "?lo < ?hi" by (rule beta_ppf_strict_mono) simp_all
  have p0: "0 \<le> ?p" by simp
  have "0 < real (?y + ?n)" using assms(2) by (simp only: of_nat_0_less_iff)
  moreover have "real ?y \<le> real (?y + ?n)" by (simp only: of_nat_le_iff le_add1)
  ultimately have p1: "?p \<le> 1" by (simp only: divide_le_eq_1_pos)
  have n0: "?p = 1" if "?n = 0" using that assms(2) by simp
  have y0: "?p = 0" if "?y = 0" using that by simp
  have mid: "?lo \<le> ?p \<and> ?p \<le> ?hi"
    if "form_num_queries inp \<le> 100" "0 < ?y" "0 < ?n"
  proof -
    have "?y + ?n \<le> form_num_queries inp" using dispatch_valid_le [OF d] v by simp
    then have "?y \<le> 100" "?n \<le> 100" using that(1) by simp_all
    from share_in_interval [OF that(2) this(1) that(3) this(2)]
    show ?thesis by simp
  qed
  define P where "P = ?p"
  define L where "L = ?lo"
  define H where "H = ?hi"
  note facts = lo [folded L_def] hi [folded H_def] lh [folded L_def H_def]
    p0 [folded P_def] p1 [folded P_def]
  have c1: "0 < L * 100" "L * 100 < H * 100" "H * 100 < 100" "0 \<le> P * 100" "P * 100 \<le> 100"
    using facts by simp_all
  have c2: "L * 100 \<le> P * 100 \<and> P * 100 \<le> H * 100"
    if "form_num_queries inp \<le> 100 \<and> 0 < ?y \<and> 0 < ?n"
  proof -
    from that have "L \<le> P \<and> P \<le> H" unfolding P_def L_def H_def by (intro mid) simp_all
    then show ?thesis by simp
  qed
  have c3: "P * 100 = 100 \<and> L * 100 < P * 100 \<and> H * 100 < P * 100" if "?n = 0"
  proof -
    have "P = 1" unfolding P_def by (rule n0 [OF that])
    then show ?thesis using facts by simp
  qed
  have c4: "P * 100 = 0 \<and> P * 100 < L * 100 \<and> P * 100 < H * 100" if "?y = 0"
  proof -
    have "P = 0" unfolding P_def by (rule y0 [OF that])
    then show ?thesis using facts by simp
  qed
  have c0: "estimate_of (shown r) = Some (P * 100)"
    "interval_of (shown r) = Some (L * 100, H * 100)"
    using e i by (simp_all only: P_def L_def H_def)
  show ?thesis
  proof (rule exI [of _ "P * 100"], rule exI [of _ "L * 100"], rule exI [of _ "H * 100"],
      intro conjI impI)
    show "estimate_of (shown r) = Some (P * 100)" by (rule c0(1))
    show "interval_of (shown r) = Some (L * 100, H * 100)" by (rule c0(2))
    show "0 < L * 100" "L * 100 < H * 100" "H * 100 < 100" "0 \<le> P * 100" "P * 100 \<le> 100"
      by (rule c1)+
    show "L * 100 \<le> P * 100" "P * 100 \<le> H * 100"
      if "form_num_queries inp \<le> 100 \<and> 0 < ?y \<and> 0 < ?n"
      using c2 [OF that] by blast+
    show "P * 100 = 100" "L * 100 < P * 100" "H * 100 < P * 100" if "?n = 0"
      using c3 [OF that] by blast+
    show "P * 100 = 0" "P * 100 < L * 100" "P * 100 < H * 100" if "?y = 0"
      using c4 [OF that] by blast+
  qed
qed

lemma main_two_two:
  "main (scripted [reply ''yes'', reply ''no'', reply ''maybe'', reply ''YES'', reply ''no''])
     (ask 5 False False)
     = Inr \<lparr>counted = \<lparr>yes_count = 2, no_count = 2, valid_responses = 4,
                        raw_responses = PyList [''yes'', ''no'', ''maybe'', ''YES'', ''no''],
                        explanations = PyList []\<rparr>,
            summarized = None,
            shown = Success 4 50 (beta_ppf (1 / 40) 3 3 * 100)
                      (beta_ppf (39 / 40) 3 3 * 100) None\<rparr>"
proof -
  have d: "dispatch
             (scripted [reply ''yes'', reply ''no'', reply ''maybe'', reply ''YES'', reply ''no''])
             (ask 5 False False)
     = Inr \<lparr>yes_count = 2, no_count = 2, valid_responses = 4,
            raw_responses = PyList [''yes'', ''no'', ''maybe'', ''YES'', ''no''],
            explanations = PyList []\<rparr>"
    by code_simp
  show ?thesis by (simp add: main_def d ask_fields report_valid)
qed

lemma main_two_no:
  "main (scripted [reply ''no'', reply ''no'']) (ask 2 False False)
     = Inr \<lparr>counted = \<lparr>yes_count = 0, no_count = 2, valid_responses = 2,
                        raw_responses = PyList [''no'', ''no''],
                        explanations = PyList []\<rparr>,
            summarized = None,
            shown = Success 2 0 (beta_ppf (1 / 40) 1 3 * 100)
                      (beta_ppf (39 / 40) 1 3 * 100) None\<rparr>"
proof -
  have d: "dispatch (scripted [reply ''no'', reply ''no'']) (ask 2 False False)
     = Inr \<lparr>yes_count = 0, no_count = 2, valid_responses = 2,
            raw_responses = PyList [''no'', ''no''], explanations = PyList []\<rparr>"
    by code_simp
  show ?thesis by (simp add: main_def d ask_fields report_valid)
qed

theorem interval_brackets_estimate_witness:
  "beta_ppf (1 / 40) 3 3 * 100 \<le> 50 \<and> 50 \<le> beta_ppf (39 / 40) 3 3 * 100
   \<and> 0 < beta_ppf (1 / 40) 3 3 * 100 \<and> beta_ppf (39 / 40) 3 3 * 100 < 100
   \<and> beta_ppf (1 / 40) 11 1 * 100 < beta_ppf (39 / 40) 11 1 * 100
   \<and> beta_ppf (39 / 40) 11 1 * 100 < 100
   \<and> 0 < beta_ppf (1 / 40) 1 3 * 100
   \<and> beta_ppf (1 / 40) 1 3 * 100 < beta_ppf (39 / 40) 1 3 * 100"
proof -
  have a: "beta_ppf (1 / 40) 3 3 * 100 \<le> 50 \<and> 50 \<le> beta_ppf (39 / 40) 3 3 * 100
   \<and> 0 < beta_ppf (1 / 40) 3 3 * 100 \<and> beta_ppf (39 / 40) 3 3 * 100 < 100"
    using interval_brackets_estimate [OF main_two_two] by (simp add: main_two_two ask_fields)
  have b: "beta_ppf (1 / 40) 11 1 * 100 < beta_ppf (39 / 40) 11 1 * 100
   \<and> beta_ppf (39 / 40) 11 1 * 100 < 100"
    using interval_brackets_estimate [OF main_all_yes] by (simp add: main_all_yes)
  have c: "0 < beta_ppf (1 / 40) 1 3 * 100
   \<and> beta_ppf (1 / 40) 1 3 * 100 < beta_ppf (39 / 40) 1 3 * 100"
    using interval_brackets_estimate [OF main_two_no] by (simp add: main_two_no)
  show ?thesis using a b c by simp
qed

subsection \<open>Where the parallel branch and the summarizer depart from the sequential branch\<close>

text \<open>
  C1 fails in the parallel branch. With three queries of which the second raises, the
  sequential branch returns three outcomes, the failed one as the sentinel text; the
  parallel branch returns the sentinel text alone, a \<open>str\<close> that \<open>main\<close> then iterates
  over as sixteen one-character outcomes. The outcomes of the first and the third query
  are lost.
\<close>

theorem parallel_failure_replaces_batch:
  "query_claude_async (scripted [reply ''yes'', Inl (APIError ''overloaded''), reply ''no''])
       ''Is water wet?'' ''Haiku'' False 3
     = Inr (PyStr ''Error or no data'')
   \<and> map_sum id raw_responses
       (dispatch (scripted [reply ''yes'', Inl (APIError ''overloaded''), reply ''no''])
          (ask 3 False True))
     = Inr (PyStr ''Error or no data'')
   \<and> length (py_iter (PyStr ''Error or no data'')) = 16
   \<and> map_sum id raw_responses
       (dispatch (scripted [reply ''yes'', Inl (APIError ''overloaded''), reply ''no''])
          (ask 3 False False))
     = Inr (PyList [''yes'', ''Error or no data'', ''no''])"
  by code_simp

text \<open>
  C7 fails on the same run: the parallel branch classifies the sixteen characters of the
  sentinel text, so the three counts add up to 16 and not to the sample size 3. The
  sequential branch counts 1 + 1 + 1 = 3.
\<close>

theorem parallel_failure_breaks_partition:
  "map_sum id (spec_counts False)
       (dispatch (scripted [reply ''yes'', Inl (APIError ''overloaded''), reply ''no''])
          (ask 3 False True))
     = Inr (0, 0, 16)
   \<and> map_sum id (spec_counts False)
       (dispatch (scripted [reply ''yes'', Inl (APIError ''overloaded''), reply ''no''])
          (ask 3 False False))
     = Inr (1, 1, 1)"
  by code_simp

text \<open>
  C2 fails when the summary request raises: \<open>summarize_explanations\<close> has no handler, so
  the exception leaves it and leaves \<open>main\<close>, and no report is shown. Only a malformed
  response yields the sentinel text "Error summarizing explanations".
\<close>

theorem summarizer_failure_escapes:
  "summarize_explanations (scripted [reply ''yes, because X'', Inl (APIError ''overloaded'')]) 1
       (PyList [''yes, because X''])
     = Inl (APIError ''overloaded'')
   \<and> main (scripted [reply ''yes, because X'', Inl (APIError ''overloaded'')]) (ask 1 True False)
     = Inl (APIError ''overloaded'')
   \<and> summarize_explanations (scripted [reply ''yes, because X'', Inr (Blocks [])]) 1
       (PyList [''yes, because X''])
     = Inr ''Error summarizing explanations''"
proof -
  have s: "summarize_explanations
             (scripted [reply ''yes, because X'', Inl (APIError ''overloaded'')]) 1
             (PyList [''yes, because X''])
           = Inl (APIError ''overloaded'')"
    by code_simp
  have d: "dispatch (scripted [reply ''yes, because X'', Inl (APIError ''overloaded'')])
             (ask 1 True False)
           = Inr \<lparr>yes_count = 1, no_count = 0, valid_responses = 1,
                  raw_responses = PyList [''yes, because X''],
                  explanations = PyList [''yes, because X'']\<rparr>"
    by code_simp
  have m: "main (scripted [reply ''yes, because X'', Inl (APIError ''overloaded'')])
             (ask 1 True False)
           = Inl (APIError ''overloaded'')"
    unfolding main_def d ask_fields using s by simp
  have e: "summarize_explanations (scripted [reply ''yes, because X'', Inr (Blocks [])]) 1
             (PyList [''yes, because X''])
           = Inr ''Error summarizing explanations''"
    by code_simp
  show ?thesis using s m e by simp
qed

text \<open>
  C6 fails in the parallel branch, which passes every raw reply to the summarizer: with
  the replies "yes, because X" and "maybe", the prompt contains the Invalid "maybe". The
  sequential branch passes the valid reply only.
\<close>

theorem parallel_summary_includes_invalid_texts:
  "map_sum id summarized
       (main (scripted [reply ''yes, because X'', reply ''maybe'', reply ''It depends.''])
          (ask 2 True True))
     = Inr (Some (PyList [''yes, because X'', ''maybe'']))
   \<and> classify ''maybe'' True = Invalid
   \<and> summary_prompt (PyList [''yes, because X'', ''maybe''])
     = summary_header @ ''yes, because X'' @ [CHR 0x0A] @ ''maybe''
   \<and> map_sum id summarized
       (main (scripted [reply ''yes, because X'', reply ''maybe'', reply ''It depends.''])
          (ask 2 True False))
     = Inr (Some (PyList [''yes, because X'']))"
proof -
  let ?c = "scripted [reply ''yes, because X'', reply ''maybe'', reply ''It depends.'']"
  have da: "dispatch ?c (ask 2 True True)
           = Inr \<lparr>yes_count = 1, no_count = 0, valid_responses = 1,
                  raw_responses = PyList [''yes, because X'', ''maybe''],
                  explanations = PyList [''yes, because X'', ''maybe'']\<rparr>"
    by code_simp
  have sa: "summarize_explanations ?c 2 (PyList [''yes, because X'', ''maybe''])
           = Inr ''It depends.''"
    by code_simp
  have ds: "dispatch ?c (ask 2 True False)
           = Inr \<lparr>yes_count = 1, no_count = 0, valid_responses = 1,
                  raw_responses = PyList [''yes, because X'', ''maybe''],
                  explanations = PyList [''yes, because X'']\<rparr>"
    by code_simp
  have ss: "summarize_explanations ?c 2 (PyList [''yes, because X''])
           = Inr ''It depends.''"
    by code_simp
  have a: "map_sum id summarized (main ?c (ask 2 True True))
     = Inr (Some (PyList [''yes, because X'', ''maybe'']))"
    unfolding main_def da ask_fields using sa by simp
  have b: "map_sum id summarized (main ?c (ask 2 True False))
     = Inr (Some (PyList [''yes, because X'']))"
    unfolding main_def ds ask_fields using ss by simp
  have c: "classify ''maybe'' True = Invalid" by code_simp
  have p: "summary_prompt (PyList [''yes, because X'', ''maybe''])
     = summary_header @ ''yes, because X'' @ [CHR 0x0A] @ ''maybe''"
    by (simp add: summary_prompt_def)
  show ?thesis using a b c p by simp
qed

lemma summarizer_called_iff:
  assumes "main client inp = Inr r"
  shows "(summarized r \<noteq> None)
           = (form_request_explanation inp \<and> 0 < yes_count (counted r) + no_count (counted r))"
  using main_Inr(2) [OF assms] dispatch_valid [OF main_Inr(1) [OF assms]] by simp

end
